theory Spec2Isabelle
  imports Main "HOL-Library.Word" "HOL-Library.List_Lexorder" "HOL-Library.Char_ord"
begin

section \<open>gdownload: the filename disambiguator\<close>

text \<open>
  Go strings are byte sequences; a \<^typ>\<open>string\<close> is a list of 8-bit characters.
  The regular expression of the downloader only tests bytes below 128 (parentheses, the
  dot, the digits, the newline), and no byte of a multi-byte UTF-8 sequence is below 128,
  so matching bytes and matching runes give the same groups.
\<close>

subsection \<open>Library functions the disambiguator calls\<close>

definition is_digit :: "char \<Rightarrow> bool" where
  "is_digit c = (c \<in> set ''0123456789'')"

definition digit_val :: "char \<Rightarrow> int" where
  "digit_val c = of_char c - 48"

definition digit_char :: "int \<Rightarrow> char" where
  "digit_char d = ''0123456789'' ! nat d"

text \<open>The value of a string of decimal digits, most significant digit first.\<close>

definition digits_value :: "string \<Rightarrow> int" where
  "digits_value ds = foldl (\<lambda>acc c. 10 * acc + digit_val c) 0 ds"

text \<open>
  The decimal digits \<open>%v\<close> and \<open>%d\<close> print for a number that is not negative
  (\<open>Sprint_int\<close> below prints the sign).
\<close>

function dec_digits :: "int \<Rightarrow> string" where
  "dec_digits n = (if n < 10 then [digit_char n] else dec_digits (n div 10) @ [digit_char (n mod 10)])"
  by pat_completeness auto
termination
  by (relation "measure nat") auto

declare dec_digits.simps [simp del]

definition Sprint_int :: "int \<Rightarrow> string" where
  "Sprint_int i = (if i < 0 then CHR ''-'' # dec_digits (- i) else dec_digits i)"

text \<open>
  Go's \<open>int\<close> on the 64-bit platforms the program names (darwin, linux, freebsd on
  amd64 and arm64): addition wraps around in two's complement.
\<close>

definition maxInt :: int where
  "maxInt = 2 ^ 63 - 1"

definition wrap_int :: "int \<Rightarrow> int" where
  "wrap_int x = (x + 2 ^ 63) mod 2 ^ 64 - 2 ^ 63"

datatype NumError = ErrSyntax | ErrRange

text \<open>
  \<open>strconv.Atoi\<close>: an optional sign, then decimal digits only; a value outside
  the range of \<open>int\<close> is \<open>ErrRange\<close>.
\<close>

definition Atoi :: "string \<Rightarrow> NumError + int" where
  "Atoi s =
     (let neg = (s \<noteq> [] \<and> hd s = CHR ''-'');
          t = (if s \<noteq> [] \<and> (hd s = CHR ''-'' \<or> hd s = CHR ''+'') then tl s else s)
      in if t = [] \<or> \<not> list_all is_digit t then Inl ErrSyntax
         else if neg then (if digits_value t > maxInt + 1 then Inl ErrRange
                           else Inr (- digits_value t))
         else (if digits_value t > maxInt then Inl ErrRange
               else Inr (digits_value t)))"

subsection \<open>The regular expression \<open>^(.*?)(?:\(([0-9]+)\))?(\.[^\.]*)?$\<close>\<close>

text \<open>
  \<open>regexp.MustCompile\<close> compiles with Perl syntax and leftmost-first matching: of
  the matches that start at the leftmost position, the one a backtracking matcher finds
  first. The expression is anchored at both ends; \<open>.\<close> does not match a newline, the
  negated class \<open>[^\.]\<close> does.

  \<open>match_ext\<close> is \<open>(\.[^\.]*)?$\<close> on the rest of the text: the group takes a dot
  and everything after it when no further dot follows, and is skipped on the empty rest.
\<close>

definition match_ext :: "string \<Rightarrow> bool" where
  "match_ext rest = (case rest of [] \<Rightarrow> True | c # t \<Rightarrow> c = CHR ''.'' \<and> CHR ''.'' \<notin> set t)"

text \<open>
  \<open>match_counter\<close> is \<open>\(([0-9]+)\)\<close> at the start of the rest: group 2 and what
  follows the closing parenthesis. The digits are followed by \<open>)\<close>, so the greedy
  \<open>[0-9]+\<close> can only take all of them.
\<close>

definition match_counter :: "string \<Rightarrow> (string \<times> string) option" where
  "match_counter rest =
     (case rest of
        [] \<Rightarrow> None
      | c # t \<Rightarrow>
          if c \<noteq> CHR ''('' then None
          else let ds = takeWhile is_digit t in
            (case dropWhile is_digit t of
               [] \<Rightarrow> None
             | c' # r \<Rightarrow> if ds \<noteq> [] \<and> c' = CHR '')'' then Some (ds, r) else None))"

text \<open>
  \<open>match_tail\<close> is \<open>(?:\(([0-9]+)\))?(\.[^\.]*)?$\<close>: the optional counter group is
  greedy, so the matcher first tries to take it, and only then tries without it. The
  result is (group 2, group 3); a group that did not take part is the empty string, as
  \<open>FindStringSubmatch\<close> returns it.
\<close>

definition match_tail :: "string \<Rightarrow> (string \<times> string) option" where
  "match_tail rest =
     (case match_counter rest of
        Some (ds, r) \<Rightarrow>
          if match_ext r then Some (ds, r)
          else if match_ext rest then Some ([], rest) else None
      | None \<Rightarrow> if match_ext rest then Some ([], rest) else None)"

text \<open>
  \<open>find_from stem rest\<close> is the lazy \<open>(.*?)\<close>: group 1 grows one character at a
  time, from the shortest, and stops at the first length at which the remainder of the
  expression matches; it cannot grow over a newline.
\<close>

fun find_from :: "string \<Rightarrow> string \<Rightarrow> (string \<times> string \<times> string) option" where
  "find_from stem rest =
     (case match_tail rest of
        Some (ds, ext) \<Rightarrow> Some (stem, ds, ext)
      | None \<Rightarrow>
          (case rest of
             [] \<Rightarrow> None
           | c # t \<Rightarrow> if c = CHR 0x0A then None else find_from (stem @ [c]) t))"

declare find_from.simps [simp del]

text \<open>\<open>r.FindStringSubmatch(file)\<close>: groups 1, 2 and 3, or \<open>None\<close> for \<open>nil\<close>.\<close>

definition FindStringSubmatch :: "string \<Rightarrow> (string \<times> string \<times> string) option" where
  "FindStringSubmatch file = find_from [] file"

subsection \<open>getUniqeFilename\<close>

text \<open>The calls of \<open>log.Fatalf\<close> in the downloader, each with what it prints.\<close>

datatype fatal =
    UnexpectedMatches string
  | UnexpectedAtoi string
  | UnableToRetrieveMessages
  | UnableToRetrieveMessage string
  | ErrorRetrievingAttachment string
  | ErrorDecodingAttachment
  | UnableToWriteFile string
  | CannotChangeTimestamps string
  | TokenExchangeError

text \<open>
  The candidate \<open>fmt.Sprintf("%s(%v)%s", matches[1], i+1, matches[3])\<close>, with
  \<open>i + 1\<close> computed in \<open>int\<close>.
\<close>

definition candidate :: "string \<Rightarrow> int \<Rightarrow> string \<Rightarrow> string" where
  "candidate stem i ext = stem @ ''('' @ Sprint_int (wrap_int (i + 1)) @ '')'' @ ext"

text \<open>
  The directory \<open>path\<close> is given by the set \<open>D\<close> of the names \<open>file\<close> for which
  \<open>os.Stat(filepath.Join(path, file))\<close> does not answer with a not-exist error.
  \<open>log.Fatalf\<close> ends the process: the result is \<open>Inl\<close> of the failure. The
  recursion has no bound in the source, so the function is partial: \<open>None\<close> is a run
  that never returns.
\<close>

partial_function (option) getUniqeFilename :: "string set \<Rightarrow> string \<Rightarrow> (fatal + string) option" where
  "getUniqeFilename D file =
     (if file \<notin> D then Some (Inr file)
      else case FindStringSubmatch file of
        None \<Rightarrow> Some (Inl (UnexpectedMatches file))
      | Some (m1, m2, m3) \<Rightarrow>
          (case (if m2 \<noteq> [] then Atoi m2 else Inr 0) of
             Inl e \<Rightarrow> Some (Inl (UnexpectedAtoi m2))
           | Inr i \<Rightarrow> getUniqeFilename D (candidate m1 i m3)))"

declare getUniqeFilename.simps [code]

text \<open>
  Notions for stating properties: the counter a captured group 2 stands for (0 when the
  group is empty), the parenthesised counter as it stands in a name, and the names the
  expression matches with a counter that \<open>strconv.Atoi\<close> accepts.
\<close>

definition counter_value :: "string \<Rightarrow> int" where
  "counter_value c = (if c = [] then 0 else digits_value c)"

definition paren :: "string \<Rightarrow> string" where
  "paren c = (if c = [] then [] else CHR ''('' # c @ '')'')"



section \<open>gdownload: the attachment walker\<close>

subsection \<open>Messages, the services the walker calls, and the output directory\<close>

text \<open>
  The fields of the Gmail API values that \<open>gmailDownloadAttachments\<close> reads:
  \<open>part.Filename\<close>, \<open>part.Body.AttachmentId\<close>, \<open>msg.Payload.Parts\<close>,
  \<open>msg.InternalDate\<close> (milliseconds since the epoch, an \<open>int64\<close>),
  \<open>r.Messages\<close> (their ids) and \<open>r.NextPageToken\<close>. The subject header is read
  for a log line only.
\<close>

record MessagePart =
  part_Filename :: string
  part_AttachmentId :: string

record Message =
  msg_Parts :: "MessagePart list"
  msg_InternalDate :: int

record ListMessagesResponse =
  resp_Messages :: "string list"
  resp_NextPageToken :: string

text \<open>
  What is outside the program: the answers of the Gmail service (\<open>None\<close> for a call
  that returns an error), \<open>base64.URLEncoding.DecodeString\<close> (the standard padded
  encoding with the URL-safe alphabet; \<open>None\<close> for a decoding error), whether
  \<open>ioutil.WriteFile\<close> and \<open>os.Chtimes\<close> succeed on a name, and the clock, in
  nanoseconds since the epoch.
\<close>

record world =
  Messages_List :: "string \<Rightarrow> string \<Rightarrow> ListMessagesResponse option"
  Messages_Get :: "string \<Rightarrow> Message option"
  Attachments_Get :: "string \<Rightarrow> string \<Rightarrow> string option"
  URLEncoding_DecodeString :: "string \<Rightarrow> string option"
  WriteFile_ok :: "string \<Rightarrow> bool"
  Chtimes_ok :: "string \<Rightarrow> bool"
  time_Now :: int

text \<open>
  The output directory maps the names of its entries to their files. \<open>state\<close> is what
  the walker changes: the directory, its two counters, and the names it has passed to a
  successful \<open>ioutil.WriteFile\<close>, oldest first.
\<close>

record file_entry =
  contents :: string
  modtime :: int

type_synonym directory = "string \<rightharpoonup> file_entry"

record state =
  outDir :: directory
  totalMsg :: nat
  totalAtt :: nat
  written :: "string list"

text \<open>
  How a run ends: it returns, it stops in \<open>log.Fatalf\<close>, it never returns from
  \<open>getUniqeFilename\<close>, or the model stopped following it after a number of pages.
\<close>

datatype outcome = Returned | Exit fatal | NoReturn | MorePages

text \<open>Go's integer division truncates toward zero.\<close>

definition go_div :: "int \<Rightarrow> int \<Rightarrow> int" where
  "go_div a b = sgn a * sgn b * (\<bar>a\<bar> div \<bar>b\<bar>)"

text \<open>\<open>time.Unix(sec, nsec)\<close>, in nanoseconds since the epoch.\<close>

definition time_Unix :: "int \<Rightarrow> int \<Rightarrow> int" where
  "time_Unix sec nsec = sec * 1000000000 + nsec"

text \<open>
  \<open>ioutil.WriteFile\<close> creates the file or replaces its contents;
  \<open>os.Chtimes\<close> sets the modification time of an existing file.
\<close>

definition WriteFile :: "directory \<Rightarrow> string \<Rightarrow> string \<Rightarrow> int \<Rightarrow> directory" where
  "WriteFile d name data now = d(name \<mapsto> \<lparr>contents = data, modtime = now\<rparr>)"

definition Chtimes :: "directory \<Rightarrow> string \<Rightarrow> int \<Rightarrow> directory option" where
  "Chtimes d name mtime =
     (case d name of
        None \<Rightarrow> None
      | Some f \<Rightarrow> Some (d(name \<mapsto> f\<lparr>modtime := mtime\<rparr>)))"

subsection \<open>gmailDownloadAttachments\<close>

text \<open>The body of the loop over \<open>msg.Payload.Parts\<close> (lines 70 to 90).\<close>

definition download_part :: "world \<Rightarrow> string \<Rightarrow> Message \<Rightarrow> MessagePart \<Rightarrow> state \<Rightarrow> outcome \<times> state" where
  "download_part w mId msg part st =
     (if part_Filename part = [] then (Returned, st)
      else
        let st1 = st\<lparr>totalAtt := totalAtt st + 1\<rparr> in
        case Attachments_Get w mId (part_AttachmentId part) of
          None \<Rightarrow> (Exit (ErrorRetrievingAttachment (part_AttachmentId part)), st1)
        | Some attachmentBody \<Rightarrow>
            (case URLEncoding_DecodeString w attachmentBody of
               None \<Rightarrow> (Exit ErrorDecodingAttachment, st1)
             | Some data \<Rightarrow>
                 (case getUniqeFilename (dom (outDir st1)) (part_Filename part) of
                    None \<Rightarrow> (NoReturn, st1)
                  | Some (Inl e) \<Rightarrow> (Exit e, st1)
                  | Some (Inr name) \<Rightarrow>
                      if \<not> WriteFile_ok w name then (Exit (UnableToWriteFile name), st1)
                      else
                        let st2 = st1\<lparr>outDir := WriteFile (outDir st1) name data (time_Now w),
                                      written := written st1 @ [name]\<rparr> in
                        if \<not> Chtimes_ok w name then (Exit (CannotChangeTimestamps name), st2)
                        else
                          (case Chtimes (outDir st2) name
                                  (time_Unix (go_div (msg_InternalDate msg) 1000) 0) of
                             None \<Rightarrow> (Exit (CannotChangeTimestamps name), st2)
                           | Some d \<Rightarrow> (Returned, st2\<lparr>outDir := d\<rparr>)))))"

text \<open>The loop over the parts of one message.\<close>

fun download_parts :: "world \<Rightarrow> string \<Rightarrow> Message \<Rightarrow> MessagePart list \<Rightarrow> state \<Rightarrow> outcome \<times> state" where
  "download_parts w mId msg [] st = (Returned, st)"
| "download_parts w mId msg (part # parts) st =
     (case download_part w mId msg part st of
        (Returned, st') \<Rightarrow> download_parts w mId msg parts st'
      | (out, st') \<Rightarrow> (out, st'))"

text \<open>The body of the loop over \<open>r.Messages\<close> (lines 52 to 91).\<close>

definition download_message :: "world \<Rightarrow> string \<Rightarrow> state \<Rightarrow> outcome \<times> state" where
  "download_message w mId st =
     (case Messages_Get w mId of
        None \<Rightarrow> (Exit (UnableToRetrieveMessage mId), st)
      | Some msg \<Rightarrow> download_parts w mId msg (msg_Parts msg) (st\<lparr>totalMsg := totalMsg st + 1\<rparr>))"

fun download_messages :: "world \<Rightarrow> string list \<Rightarrow> state \<Rightarrow> outcome \<times> state" where
  "download_messages w [] st = (Returned, st)"
| "download_messages w (mId # mIds) st =
     (case download_message w mId st of
        (Returned, st') \<Rightarrow> download_messages w mIds st'
      | (out, st') \<Rightarrow> (out, st'))"

text \<open>
  The loop over the pages. The service decides how many pages there are, so the loop is
  followed for at most \<open>n\<close> pages; \<open>MorePages\<close> says that the run goes on.
\<close>

fun download_pages :: "nat \<Rightarrow> world \<Rightarrow> string \<Rightarrow> string \<Rightarrow> state \<Rightarrow> outcome \<times> state" where
  "download_pages 0 w query pageToken st = (MorePages, st)"
| "download_pages (Suc n) w query pageToken st =
     (case Messages_List w query pageToken of
        None \<Rightarrow> (Exit UnableToRetrieveMessages, st)
      | Some r \<Rightarrow>
          (case download_messages w (resp_Messages r) st of
             (Returned, st') \<Rightarrow>
               if resp_NextPageToken r = [] then (Returned, st')
               else download_pages n w query (resp_NextPageToken r) st'
           | (out, st') \<Rightarrow> (out, st')))"

definition gmailDownloadAttachments :: "nat \<Rightarrow> world \<Rightarrow> string \<Rightarrow> state \<Rightarrow> outcome \<times> state" where
  "gmailDownloadAttachments n w query st = download_pages n w query [] st"


subsection \<open>Notions for stating the properties of the walker\<close>







text \<open>
  An example: two messages, each with one attachment named \<open>a.pdf\<close>, delivered 1500
  milliseconds after the epoch, on one page; an empty output directory.
\<close>

definition example_world :: world where
  "example_world =
     \<lparr>Messages_List = (\<lambda>query pageToken.
          if pageToken = [] then Some \<lparr>resp_Messages = [''m1'', ''m2''], resp_NextPageToken = []\<rparr>
          else None),
      Messages_Get = (\<lambda>mId.
          Some \<lparr>msg_Parts = [\<lparr>part_Filename = ''a.pdf'', part_AttachmentId = ''att''\<rparr>],
                msg_InternalDate = 1500\<rparr>),
      Attachments_Get = (\<lambda>mId attachmentId. Some ''aGk=''),
      URLEncoding_DecodeString = (\<lambda>s. Some ''hi''),
      WriteFile_ok = (\<lambda>name. True),
      Chtimes_ok = (\<lambda>name. True),
      time_Now = 7\<rparr>"

definition empty_state :: state where
  "empty_state = \<lparr>outDir = Map.empty, totalMsg = 0, totalAtt = 0, written = []\<rparr>"


section \<open>gdownload: the token manager\<close>

subsection \<open>The token cache file\<close>

text \<open>
  The fields of \<open>oauth2.Config\<close> and \<open>oauth2.Token\<close>, and what the program reads
  of its host: \<open>runtime.GOOS\<close>, the environment variable \<open>HOME\<close>, the program
  name taken from \<open>os.Args[0]\<close>, and \<open>filepath.Join\<close>.
\<close>

record Config =
  ClientID :: string
  ClientSecret :: string
  Scopes :: "string list"
  RedirectURL :: string
  AuthURL :: string
  TokenURL :: string

record Token =
  AccessToken :: string
  TokenType :: string
  RefreshToken :: string
  Expiry :: int

record host =
  GOOS :: string
  HOME :: string
  progName :: string
  filepath_Join :: "string list \<Rightarrow> string"

text \<open>
  \<open>hash/fnv\<close>, the 32-bit FNV-1a hash: \<open>New32a\<close> starts from the offset basis, and
  \<open>Write\<close> takes each byte with an exclusive or followed by a multiplication with the
  FNV prime, modulo \<open>2^32\<close>.
\<close>

definition fnv_New32a :: "32 word" where
  "fnv_New32a = 2166136261"

definition fnv_Write :: "32 word \<Rightarrow> string \<Rightarrow> 32 word" where
  "fnv_Write h bs = foldl (\<lambda>hash c. (xor hash (of_char c)) * 16777619) h bs"

fun strings_Join :: "string list \<Rightarrow> string \<Rightarrow> string" where
  "strings_Join [] sep = []"
| "strings_Join [x] sep = x"
| "strings_Join (x # y # xs) sep = x @ sep @ strings_Join (y # xs) sep"

text \<open>
  \<open>url.QueryEscape\<close>: letters, digits and \<open>-_.~\<close> stay, a space becomes \<open>+\<close>,
  every other byte becomes \<open>%\<close> and two upper-case hexadecimal digits.
\<close>

definition unreserved :: "char \<Rightarrow> bool" where
  "unreserved c =
     (let n = (of_char c :: nat)
      in (97 \<le> n \<and> n \<le> 122) \<or> (65 \<le> n \<and> n \<le> 90) \<or> (48 \<le> n \<and> n \<le> 57) \<or> c \<in> set ''-_.~'')"

definition escape_byte :: "char \<Rightarrow> string" where
  "escape_byte c =
     (if unreserved c then [c]
      else if c = CHR '' '' then ''+''
      else [CHR ''%'', ''0123456789ABCDEF'' ! (of_char c div 16), ''0123456789ABCDEF'' ! (of_char c mod 16)])"

definition QueryEscape :: "string \<Rightarrow> string" where
  "QueryEscape s = concat (map escape_byte s)"

definition osUserCacheDir :: "host \<Rightarrow> string" where
  "osUserCacheDir h =
     (if GOOS h = ''darwin'' then filepath_Join h [HOME h, ''Library'', ''Caches'']
      else if GOOS h = ''linux'' \<or> GOOS h = ''freebsd'' then filepath_Join h [HOME h, ''.cache'']
      else ''.'')"

definition tokenCacheFile :: "host \<Rightarrow> Config \<Rightarrow> string" where
  "tokenCacheFile h config =
     (let hash = fnv_Write (fnv_Write (fnv_Write fnv_New32a (ClientID config)) (ClientSecret config))
                   (strings_Join (Scopes config) '' '');
          fn = progName h @ ''-tok'' @ dec_digits (uint hash)
      in filepath_Join h [osUserCacheDir h, QueryEscape fn])"

subsection \<open>The authorization callback\<close>

text \<open>
  A request as the handler reads it: \<open>req.URL.Path\<close>, and the parsed form in the order
  in which \<open>req.FormValue\<close> looks a key up (the first value of the key, the empty
  string when the key is absent). A response is the status and the body.
\<close>

record Request =
  req_Path :: string
  req_Form :: "(string \<times> string) list"

record Response =
  http_Status :: nat
  http_Body :: string

definition FormValue :: "Request \<Rightarrow> string \<Rightarrow> string" where
  "FormValue req key = (case map_of (req_Form req) key of None \<Rightarrow> [] | Some v \<Rightarrow> v)"

text \<open>\<open>http.Error(rw, "", code)\<close> writes the status and the empty message with a newline.\<close>

definition http_Error :: "nat \<Rightarrow> Response" where
  "http_Error code = \<lparr>http_Status = code, http_Body = [CHR 0x0A]\<rparr>"

text \<open>
  The handler function of \<open>tokenFromWeb\<close>: the response, and the code it sends on the
  channel \<open>ch\<close>, if it sends one.
\<close>

definition handler :: "string \<Rightarrow> Request \<Rightarrow> Response \<times> string option" where
  "handler randState req =
     (if req_Path req = ''/favicon.ico'' then (http_Error 404, None)
      else if FormValue req ''state'' \<noteq> randState then (http_Error 500, None)
      else if FormValue req ''code'' \<noteq> []
        then (\<lparr>http_Status = 200, http_Body = ''<h1>Success</h1>Authorized.''\<rparr>,
              Some (FormValue req ''code''))
      else (http_Error 500, None))"

text \<open>
  \<open>code := <-ch\<close>: the caller receives the first code that a handler sends, the
  requests taken in the order in which their handlers reach the channel. \<open>None\<close>: no
  handler sends, and the caller waits forever.
\<close>

fun received_code :: "string \<Rightarrow> Request list \<Rightarrow> string option" where
  "received_code randState [] = None"
| "received_code randState (req # reqs) =
     (case snd (handler randState req) of
        Some code \<Rightarrow> Some code
      | None \<Rightarrow> received_code randState reqs)"

text \<open>
  What is outside the token manager: the state string made from the clock, the requests
  that reach the listener, \<open>config.Exchange\<close>, whether \<open>os.Create\<close> succeeds on a
  path and whether the encoder can then write to the file, and the \<open>gob\<close> encoding.
\<close>

record authority =
  randState :: string
  callback_requests :: "Request list"
  Exchange :: "string \<Rightarrow> Token option"
  Create_ok :: "string \<Rightarrow> bool"
  Encode_ok :: "string \<Rightarrow> bool"
  gob_Encode :: "Token \<Rightarrow> string"
  gob_Decode :: "string \<Rightarrow> Token option"

definition tokenFromWeb :: "authority \<Rightarrow> (fatal + Token) option" where
  "tokenFromWeb a =
     (case received_code (randState a) (callback_requests a) of
        None \<Rightarrow> None
      | Some code \<Rightarrow>
          (case Exchange a code of
             None \<Rightarrow> Some (Inl TokenExchangeError)
           | Some token \<Rightarrow> Some (Inr token)))"

subsection \<open>Reading and saving the cached token\<close>

datatype log_line =
    WarningFailedToCache
  | SavedToken string
  | UsingCachedToken string

text \<open>The files under the cache directory, by path, and the lines logged so far.\<close>

record disk =
  cache_files :: "string \<rightharpoonup> string"
  log_lines :: "log_line list"

definition tokenFromFile :: "bool \<Rightarrow> authority \<Rightarrow> disk \<Rightarrow> string \<Rightarrow> Token option" where
  "tokenFromFile cacheToken a d file =
     (if \<not> cacheToken then None
      else case cache_files d file of
        None \<Rightarrow> None
      | Some bytes \<Rightarrow> gob_Decode a bytes)"

text \<open>
  \<open>saveToken\<close>: \<open>os.Create\<close> leaves an empty file; the result of \<open>Encode\<close> is
  not looked at.
\<close>

definition saveToken :: "authority \<Rightarrow> string \<Rightarrow> Token \<Rightarrow> disk \<Rightarrow> disk" where
  "saveToken a file token d =
     (if \<not> Create_ok a file then d\<lparr>log_lines := log_lines d @ [WarningFailedToCache]\<rparr>
      else d\<lparr>cache_files := (cache_files d)(file \<mapsto> (if Encode_ok a file then gob_Encode a token else [])),
              log_lines := log_lines d @ [SavedToken file]\<rparr>)"

text \<open>
  \<open>newOAuthClient\<close>, up to the token it builds the client from: \<open>None\<close> when the
  caller waits forever for a code.
\<close>

definition newOAuthClient :: "host \<Rightarrow> authority \<Rightarrow> bool \<Rightarrow> Config \<Rightarrow> disk \<Rightarrow> ((fatal + Token) \<times> disk) option" where
  "newOAuthClient h a cacheToken config d =
     (let cacheFile = tokenCacheFile h config in
      case tokenFromFile cacheToken a d cacheFile of
        Some token \<Rightarrow> Some (Inr token, d\<lparr>log_lines := log_lines d @ [UsingCachedToken cacheFile]\<rparr>)
      | None \<Rightarrow>
          (case tokenFromWeb a of
             None \<Rightarrow> None
           | Some (Inl e) \<Rightarrow> Some (Inl e, d)
           | Some (Inr token) \<Rightarrow>
               Some (Inr token, if cacheToken then saveToken a cacheFile token d else d)))"

subsection \<open>Examples\<close>

text \<open>
  A request with a state that is not the expected one, the request of a browser for the
  icon of the page, a host, a configuration with the given scopes, and an authority
  under which the cache file can be created but not written.
\<close>

definition forged_request :: Request where
  "forged_request = \<lparr>req_Path = ''/'', req_Form = [(''state'', ''st0''), (''code'', ''4/abc'')]\<rparr>"

definition favicon_request :: Request where
  "favicon_request = \<lparr>req_Path = ''/favicon.ico'', req_Form = []\<rparr>"

definition example_host :: host where
  "example_host = \<lparr>GOOS = ''linux'', HOME = ''/home/u'', progName = ''gdownload'',
                   filepath_Join = (\<lambda>elems. strings_Join elems ''/'')\<rparr>"

definition example_config :: "string list \<Rightarrow> Config" where
  "example_config scopes = \<lparr>ClientID = ''id'', ClientSecret = ''s'', Scopes = scopes,
                            RedirectURL = [], AuthURL = [], TokenURL = []\<rparr>"

definition failing_disk :: authority where
  "failing_disk =
     \<lparr>randState = ''st1'',
      callback_requests = [\<lparr>req_Path = ''/'', req_Form = [(''state'', ''st1''), (''code'', ''4/abc'')]\<rparr>],
      Exchange = (\<lambda>code. Some \<lparr>AccessToken = ''at'', TokenType = ''Bearer'', RefreshToken = ''rt'', Expiry = 0\<rparr>),
      Create_ok = (\<lambda>path. True),
      Encode_ok = (\<lambda>path. False),
      gob_Encode = (\<lambda>token. AccessToken token @ RefreshToken token),
      gob_Decode = (\<lambda>bytes. None)\<rparr>"

section \<open>gobin: the generator of byte-array literals\<close>

datatype Format = hexx | hex | dec | shexx | shex

record options =
  packageName :: string
  varName :: string
  format :: Format
  step :: int
  initOnly :: bool

definition getParents :: "Format \<Rightarrow> string" where
  "getParents f = (case f of shexx \<Rightarrow> ''()'' | shex \<Rightarrow> ''()'' | _ \<Rightarrow> ''{}'')"

text \<open>
  The verbs of \<open>fmt\<close>: \<open>%x\<close> prints an integer with as many lower-case hexadecimal
  digits as it needs, and a byte slice with two digits for each byte; \<open>%#x\<close> puts
  \<open>0x\<close> in front.
\<close>

definition hex_digit :: "nat \<Rightarrow> char" where
  "hex_digit n = ''0123456789abcdef'' ! n"

definition fmt_x_int :: "nat \<Rightarrow> string" where
  "fmt_x_int b = (if b < 16 then [hex_digit b] else [hex_digit (b div 16), hex_digit (b mod 16)])"

definition fmt_x_byte :: "char \<Rightarrow> string" where
  "fmt_x_byte b = [hex_digit (of_char b div 16), hex_digit (of_char b mod 16)]"

text \<open>
  The line of one chunk \<open>buffer[from:to]\<close>, for each format; \<open>cap\<close> is the capacity
  of the chunk, and \<open>quote\<close> is \<open>%+q\<close> on a byte slice (\<open>strconv.QuoteToASCII\<close>).
  The double quote is \<open>CHR 0x22\<close>, the backslash \<open>CHR 0x5C\<close>, the tab \<open>CHR 0x09\<close>.
\<close>

definition getLine :: "(string \<Rightarrow> string) \<Rightarrow> Format \<Rightarrow> string \<Rightarrow> nat \<Rightarrow> string" where
  "getLine quote f buffer cap =
     (case f of
        hexx \<Rightarrow> [CHR 0x09] @ strings_Join (map (\<lambda>b. ''0x'' @ fmt_x_byte b) buffer) '', '' @ '',''
      | hex \<Rightarrow> [CHR 0x09] @ strings_Join (map (\<lambda>b. ''0x'' @ fmt_x_int (of_char b)) buffer) '', '' @ '',''
      | dec \<Rightarrow> [CHR 0x09] @ strings_Join (map (\<lambda>b. dec_digits (of_char b)) buffer) '', '' @ '',''
      | shexx \<Rightarrow>
          (let delim = (if length buffer = cap then '','' else ''+'')
           in [CHR 0x09, CHR 0x22] @
              strings_Join (map (\<lambda>b. [CHR 0x5C, CHR ''x''] @ fmt_x_byte b) buffer) [] @
              [CHR 0x22] @ delim)
      | shex \<Rightarrow>
          (let delim = (if length buffer = cap then '','' else ''+'')
           in [CHR 0x09] @ quote buffer @ delim))"

text \<open>
  The loop of \<open>main\<close> over the chunks, for a positive \<open>step\<close>; \<open>bufcap\<close> is the
  capacity of the slice that \<open>ioutil.ReadFile\<close> returned, so the capacity of the chunk
  that starts at \<open>i\<close> is \<open>bufcap - i\<close>. \<open>fmt.Fprintln\<close> puts a space between its two
  operands and a newline after them.
\<close>

function emit_lines :: "(string \<Rightarrow> string) \<Rightarrow> Format \<Rightarrow> string \<Rightarrow> nat \<Rightarrow> string \<Rightarrow> nat \<Rightarrow> nat \<Rightarrow> string" where
  "emit_lines quote f indent k buffer bufcap i =
     (if i < length buffer
      then indent @ '' '' @
           getLine quote f (take (min (i + Suc k) (length buffer) - i) (drop i buffer)) (bufcap - i) @
           [CHR 0x0A] @
           emit_lines quote f indent k buffer bufcap (i + Suc k)
      else [])"
  by pat_completeness auto
termination
  by (relation "measure (\<lambda>(quote, f, indent, k, buffer, bufcap, i). length buffer - i)") auto

declare emit_lines.simps [simp del]

datatype panic = SliceBoundsOutOfRange

text \<open>
  The literal that \<open>main\<close> emits: \<open>[]byte\<close>, the opening bracket, the lines of the
  chunks, and the closing bracket behind the indentation.
\<close>

definition emitted_literal :: "(string \<Rightarrow> string) \<Rightarrow> Format \<Rightarrow> string \<Rightarrow> nat \<Rightarrow> string \<Rightarrow> nat \<Rightarrow> string" where
  "emitted_literal quote f indent k buffer bufcap =
     ''[]byte'' @ [getParents f ! 0] @ [CHR 0x0A] @
     emit_lines quote f indent k buffer bufcap 0 @
     indent @ [getParents f ! 1]"

text \<open>
  What \<open>main\<close> writes for the bytes of the input file. With a \<open>step\<close> of zero the
  loop over a non-empty buffer never ends (\<open>None\<close>); with a negative one the first
  slice expression panics.
\<close>

definition gobin_main :: "(string \<Rightarrow> string) \<Rightarrow> options \<Rightarrow> string \<Rightarrow> nat \<Rightarrow> (panic + string) option" where
  "gobin_main quote opts buffer bufcap =
     (let indent = (if initOnly opts then [CHR 0x09] else [])
      in if buffer \<noteq> [] \<and> step opts = 0 then None
         else if buffer \<noteq> [] \<and> step opts < 0 then Some (Inl SliceBoundsOutOfRange)
         else Some (Inr (
           ''// Code generated by gobin.go DO NOT EDIT.'' @ [CHR 0x0A] @
           ''package '' @ packageName opts @ [CHR 0x0A] @
           [CHR 0x0A] @
           (if initOnly opts then ''func init() {'' @ [CHR 0x0A] else ''var '') @
           indent @ varName opts @ '' = '' @
           emitted_literal quote (format opts) indent (nat (step opts - 1)) buffer bufcap @
           [CHR 0x0A] @
           (if initOnly opts then ''}'' @ [CHR 0x0A] else []))))"

subsection \<open>Reading a byte-array literal as Go does\<close>

text \<open>
  The part of Go's syntax that the generator uses, read one character at a time: a
  composite literal \<open>[]byte{...}\<close> of integer literals (decimal, hexadecimal with
  \<open>0x\<close>, octal with a leading \<open>0\<close>), each at most 255, separated by commas, with an
  optional comma after the last; and a conversion \<open>[]byte(...)\<close> of interpreted string
  literals joined by \<open>+\<close>, with an optional comma after the operand. White space
  separates tokens. A newline after an integer literal or after a string literal ends the
  statement (Go inserts a semicolon there), which is an error inside the brackets, and a
  conversion needs its operand. In string literals the escapes \<open>\x\<close> with two
  hexadecimal digits and the single-character escapes are read. Everything else is
  refused.
\<close>

datatype lex =
    Open
  | Elems
  | Zero
  | HexStart
  | Num nat nat
  | AfterValue
  | Strs
  | InStr
  | Esc
  | HexEsc1
  | HexEsc2 nat
  | AfterStr
  | AfterComma
  | Done
  | Bad

definition is_blank :: "char \<Rightarrow> bool" where
  "is_blank c = (c = CHR '' '' \<or> c = CHR 0x09 \<or> c = CHR 0x0D)"

definition hex_val :: "char \<Rightarrow> nat option" where
  "hex_val c =
     (let n = (of_char c :: nat)
      in if 48 \<le> n \<and> n \<le> 57 then Some (n - 48)
         else if 97 \<le> n \<and> n \<le> 102 then Some (n - 87)
         else if 65 \<le> n \<and> n \<le> 70 then Some (n - 55)
         else None)"

text \<open>The value of a digit of the given base; letters, \<open>_\<close> and \<open>.\<close> cannot follow a number.\<close>

definition digit_in :: "nat \<Rightarrow> char \<Rightarrow> nat option" where
  "digit_in base c =
     (case hex_val c of
        None \<Rightarrow> None
      | Some d \<Rightarrow> if d < base then Some d else None)"

definition word_char :: "char \<Rightarrow> bool" where
  "word_char c =
     (let n = (of_char c :: nat)
      in (48 \<le> n \<and> n \<le> 57) \<or> (97 \<le> n \<and> n \<le> 122) \<or> (65 \<le> n \<and> n \<le> 90) \<or>
         c = CHR ''_'' \<or> c = CHR ''.'' \<or> 128 \<le> n)"

text \<open>After a value: the comma, the closing brace, or blanks before one of them.\<close>

definition after_value :: "string \<Rightarrow> char \<Rightarrow> lex \<times> string" where
  "after_value acc c =
     (if is_blank c then (AfterValue, acc)
      else if c = CHR '','' then (Elems, acc)
      else if c = CHR ''}'' then (Done, acc)
      else (Bad, acc))"

text \<open>The end of an integer literal of value \<open>v\<close> at the character \<open>c\<close>.\<close>

definition end_number :: "nat \<Rightarrow> string \<Rightarrow> char \<Rightarrow> lex \<times> string" where
  "end_number v acc c =
     (if word_char c \<or> 255 < v then (Bad, acc)
      else after_value (acc @ [char_of v]) c)"

definition escape_char :: "char \<Rightarrow> char option" where
  "escape_char c =
     (if c = CHR ''a'' then Some (CHR 0x07)
      else if c = CHR ''b'' then Some (CHR 0x08)
      else if c = CHR ''f'' then Some (CHR 0x0C)
      else if c = CHR ''n'' then Some (CHR 0x0A)
      else if c = CHR ''r'' then Some (CHR 0x0D)
      else if c = CHR ''t'' then Some (CHR 0x09)
      else if c = CHR ''v'' then Some (CHR 0x0B)
      else if c = CHR 0x5C then Some (CHR 0x5C)
      else if c = CHR 0x22 then Some (CHR 0x22)
      else None)"

fun lex_step :: "lex \<times> string \<Rightarrow> char \<Rightarrow> lex \<times> string" where
  "lex_step (Open, acc) c =
     (if is_blank c then (Open, acc)
      else if c = CHR ''{'' then (Elems, acc)
      else if c = CHR ''('' then (Strs, acc)
      else (Bad, acc))"
| "lex_step (Elems, acc) c =
     (if is_blank c \<or> c = CHR 0x0A then (Elems, acc)
      else if c = CHR ''}'' then (Done, acc)
      else if c = CHR ''0'' then (Zero, acc)
      else (case digit_in 10 c of Some d \<Rightarrow> (Num 10 d, acc) | None \<Rightarrow> (Bad, acc)))"
| "lex_step (Zero, acc) c =
     (if c = CHR ''x'' \<or> c = CHR ''X'' then (HexStart, acc)
      else (case digit_in 8 c of
              Some d \<Rightarrow> (Num 8 d, acc)
            | None \<Rightarrow> end_number 0 acc c))"
| "lex_step (HexStart, acc) c =
     (case digit_in 16 c of Some d \<Rightarrow> (Num 16 d, acc) | None \<Rightarrow> (Bad, acc))"
| "lex_step (Num base v, acc) c =
     (case digit_in base c of
        Some d \<Rightarrow> (Num base (v * base + d), acc)
      | None \<Rightarrow> end_number v acc c)"
| "lex_step (AfterValue, acc) c = after_value acc c"
| "lex_step (Strs, acc) c =
     (if is_blank c \<or> c = CHR 0x0A then (Strs, acc)
      else if c = CHR 0x22 then (InStr, acc)
      else (Bad, acc))"
| "lex_step (InStr, acc) c =
     (if c = CHR 0x22 then (AfterStr, acc)
      else if c = CHR 0x5C then (Esc, acc)
      else if c = CHR 0x0A \<or> 128 \<le> (of_char c :: nat) then (Bad, acc)
      else (InStr, acc @ [c]))"
| "lex_step (Esc, acc) c =
     (if c = CHR ''x'' then (HexEsc1, acc)
      else (case escape_char c of Some b \<Rightarrow> (InStr, acc @ [b]) | None \<Rightarrow> (Bad, acc)))"
| "lex_step (HexEsc1, acc) c =
     (case hex_val c of Some d \<Rightarrow> (HexEsc2 d, acc) | None \<Rightarrow> (Bad, acc))"
| "lex_step (HexEsc2 d, acc) c =
     (case hex_val c of Some e \<Rightarrow> (InStr, acc @ [char_of (16 * d + e)]) | None \<Rightarrow> (Bad, acc))"
| "lex_step (AfterStr, acc) c =
     (if is_blank c then (AfterStr, acc)
      else if c = CHR ''+'' then (Strs, acc)
      else if c = CHR '','' then (AfterComma, acc)
      else if c = CHR '')'' then (Done, acc)
      else (Bad, acc))"
| "lex_step (AfterComma, acc) c =
     (if is_blank c \<or> c = CHR 0x0A then (AfterComma, acc)
      else if c = CHR '')'' then (Done, acc)
      else (Bad, acc))"
| "lex_step (Done, acc) c = (Bad, acc)"
| "lex_step (Bad, acc) c = (Bad, acc)"

text \<open>The bytes a literal stands for, or \<open>None\<close> when Go does not accept it.\<close>

definition go_bytes_literal :: "string \<Rightarrow> string option" where
  "go_bytes_literal text =
     (if take 6 text = ''[]byte''
      then (case foldl lex_step (Open, []) (drop 6 text) of
              (Done, bytes) \<Rightarrow> Some bytes
            | _ \<Rightarrow> None)
      else None)"

subsection \<open>Notions for stating the properties of the generator\<close>

text \<open>The text of one byte in the three formats that emit a list of numbers.\<close>

definition list_item :: "Format \<Rightarrow> char \<Rightarrow> string" where
  "list_item f b =
     (case f of
        hexx \<Rightarrow> ''0x'' @ fmt_x_byte b
      | hex \<Rightarrow> ''0x'' @ fmt_x_int (of_char b)
      | _ \<Rightarrow> dec_digits (of_char b))"

section \<open>Properties of the filename disambiguator\<close>

subsection \<open>Decimal digits\<close>



lemma is_digit_not_special:
  "is_digit c \<Longrightarrow> c \<noteq> CHR ''('' \<and> c \<noteq> CHR '')'' \<and> c \<noteq> CHR ''.'' \<and> c \<noteq> CHR 0x0A \<and> c \<noteq> CHR ''-''"
  by (auto simp: is_digit_def)

lemma digit_val_range: "is_digit c \<Longrightarrow> 0 \<le> digit_val c \<and> digit_val c < 10"
  by (auto simp: is_digit_def digit_val_def)



lemma digits_value_snoc: "digits_value (ds @ [c]) = 10 * digits_value ds + digit_val c"
  by (simp add: digits_value_def)


lemma digits_value_nonneg: "list_all is_digit ds \<Longrightarrow> 0 \<le> digits_value ds"
proof (induction ds rule: rev_induct)
  case Nil
  then show ?case by (simp add: digits_value_def)
next
  case (snoc c ds)
  then show ?case using digit_val_range[of c] by (simp add: digits_value_snoc)
qed

lemma match_ext_iff: "match_ext r \<longleftrightarrow> r = [] \<or> (\<exists>t. r = CHR ''.'' # t \<and> CHR ''.'' \<notin> set t)"
  by (auto simp: match_ext_def split: list.splits)

lemma takeWhile_digits_app:
  "list_all is_digit ds \<Longrightarrow> \<not> is_digit c \<Longrightarrow> takeWhile is_digit (ds @ c # r) = ds \<and> dropWhile is_digit (ds @ c # r) = c # r"
  by (induction ds) auto

lemma match_counter_iff:
  "match_counter r = Some (ds, r') \<longleftrightarrow> ds \<noteq> [] \<and> list_all is_digit ds \<and> r = CHR ''('' # ds @ CHR '')'' # r'"
proof
  assume "match_counter r = Some (ds, r')"
  then obtain t where r: "r = CHR ''('' # t" and ds: "ds = takeWhile is_digit t" "ds \<noteq> []"
    and d: "dropWhile is_digit t = CHR '')'' # r'"
    by (auto simp: match_counter_def Let_def split: list.splits if_splits)
  have "t = ds @ CHR '')'' # r'" using ds(1) d takeWhile_dropWhile_id[of is_digit t] by simp
  moreover have "list_all is_digit ds" unfolding ds(1) by (simp add: list_all_iff) (meson set_takeWhileD)
  ultimately show "ds \<noteq> [] \<and> list_all is_digit ds \<and> r = CHR ''('' # ds @ CHR '')'' # r'"
    using r ds(2) by simp
next
  assume a: "ds \<noteq> [] \<and> list_all is_digit ds \<and> r = CHR ''('' # ds @ CHR '')'' # r'"
  have nd: "\<not> is_digit CHR '')''" by (simp add: is_digit_def)
  from a takeWhile_digits_app[OF _ nd, of ds r'] show "match_counter r = Some (ds, r')"
    by (simp add: match_counter_def)
qed

lemma match_tail_iff:
  "match_tail r = Some (c, e) \<longleftrightarrow>
     (c \<noteq> [] \<and> list_all is_digit c \<and> r = CHR ''('' # c @ CHR '')'' # e \<and> match_ext e)
     \<or> (c = [] \<and> e = r \<and> match_ext r)"
proof (cases "match_counter r")
  case None
  then have "\<not> (c \<noteq> [] \<and> list_all is_digit c \<and> r = CHR ''('' # c @ CHR '')'' # e)"
    using match_counter_iff[of r c e] by auto
  with None show ?thesis by (auto simp: match_tail_def)
next
  case (Some p)
  obtain ds r' where p: "p = (ds, r')" by (cases p)
  from Some p have m: "ds \<noteq> []" "list_all is_digit ds" "r = CHR ''('' # ds @ CHR '')'' # r'"
    using match_counter_iff[of r ds r'] by auto
  then have ne: "\<not> match_ext r" by (simp add: match_ext_iff)
  have nd: "\<not> is_digit CHR '')''" by (simp add: is_digit_def)
  have uniq: "list_all is_digit c \<Longrightarrow> r = CHR ''('' # c @ CHR '')'' # e \<Longrightarrow> c = ds \<and> e = r'"
  proof -
    assume c: "list_all is_digit c" "r = CHR ''('' # c @ CHR '')'' # e"
    then have "match_counter r = Some (c, e) \<or> c = []" using match_counter_iff[of r c e] by auto
    moreover have "c \<noteq> []" using c m takeWhile_digits_app[OF m(2) nd, of r'] nd by (cases c) auto
    ultimately show ?thesis using Some p by simp
  qed
  show ?thesis using Some p m ne uniq by (auto simp: match_tail_def)
qed

subsection \<open>What the expression matches\<close>

lemma match_tail_Nil: "match_tail [] = Some ([], [])"
  by (simp add: match_tail_iff match_ext_iff)



lemma find_from_SomeD:
  "find_from acc r = Some (s, c, e) \<Longrightarrow>
   \<exists>pre r2. r = pre @ r2 \<and> s = acc @ pre \<and> match_tail r2 = Some (c, e) \<and> CHR 0x0A \<notin> set pre \<and>
     (\<forall>k < length pre. match_tail (drop k pre @ r2) = None)"
proof (induction acc r rule: find_from.induct)
  case (1 stem rest)
  show ?case
  proof (cases "match_tail rest")
    case (Some p)
    with "1.prems" have "s = stem" "p = (c, e)"
      by (auto simp: find_from.simps[of stem rest] split: prod.splits)
    with Some show ?thesis by (intro exI[of _ "[]"] exI[of _ rest]) simp
  next
    case None
    with "1.prems" obtain a t where r: "rest = a # t" "a \<noteq> CHR 0x0A" "find_from (stem @ [a]) t = Some (s, c, e)"
      by (auto simp: find_from.simps[of stem rest] split: list.splits if_splits)
    from "1.IH"[OF None r(1) r(2) r(3)] obtain pre r2 where
      p: "t = pre @ r2" "s = (stem @ [a]) @ pre" "match_tail r2 = Some (c, e)" "CHR 0x0A \<notin> set pre"
         "\<forall>k < length pre. match_tail (drop k pre @ r2) = None" by blast
    have "\<forall>k < length (a # pre). match_tail (drop k (a # pre) @ r2) = None"
    proof (intro allI impI)
      fix k assume k: "k < length (a # pre)"
      show "match_tail (drop k (a # pre) @ r2) = None"
      proof (cases k)
        case 0
        then show ?thesis using None r(1) p(1) by simp
      next
        case (Suc j)
        then show ?thesis using k p(5) by simp
      qed
    qed
    with p r show ?thesis by (intro exI[of _ "a # pre"] exI[of _ r2]) simp
  qed
qed

lemma find_from_no_newline: "CHR 0x0A \<notin> set r \<Longrightarrow> find_from acc r \<noteq> None"
proof (induction r arbitrary: acc)
  case Nil
  then show ?case by (simp add: find_from.simps[of acc "[]"] match_tail_Nil)
next
  case (Cons a r)
  then show ?case by (cases "match_tail (a # r)") (auto simp: find_from.simps[of acc "a # r"])
qed

lemma match_tail_shape:
  "match_tail r2 = Some (c, e) \<Longrightarrow> r2 = paren c @ e \<and> match_ext e \<and> list_all is_digit c"
  by (auto simp: match_tail_iff paren_def)

lemma FindStringSubmatch_D:
  assumes "FindStringSubmatch f = Some (s, c, e)"
  shows "f = s @ paren c @ e" and "match_ext e" and "list_all is_digit c" and "CHR 0x0A \<notin> set s"
    and "\<And>k. k < length s \<Longrightarrow> match_tail (drop k s @ paren c @ e) = None"
proof -
  from assms obtain pre r2 where p: "f = pre @ r2" "s = pre" "match_tail r2 = Some (c, e)"
    "CHR 0x0A \<notin> set pre" "\<forall>k < length pre. match_tail (drop k pre @ r2) = None"
    unfolding FindStringSubmatch_def by (auto dest: find_from_SomeD)
  from match_tail_shape[OF p(3)] have r2: "r2 = paren c @ e" "match_ext e" "list_all is_digit c" by auto
  show "f = s @ paren c @ e" using p r2 by simp
  show "match_ext e" by fact
  show "list_all is_digit c" by fact
  show "CHR 0x0A \<notin> set s" using p by simp
  show "\<And>k. k < length s \<Longrightarrow> match_tail (drop k s @ paren c @ e) = None" using p r2 by simp
qed

lemma dot_notin_paren: "list_all is_digit c \<Longrightarrow> CHR ''.'' \<notin> set (paren c)"
  by (auto simp: paren_def list_all_iff dest: is_digit_not_special)




subsection \<open>One step of the recursion, and its end\<close>

lemma counter_value_nonneg: "list_all is_digit c \<Longrightarrow> 0 \<le> counter_value c"
  by (simp add: counter_value_def digits_value_nonneg)

lemma Atoi_digits:
  assumes "c \<noteq> []" "list_all is_digit c"
  shows "Atoi c = (if digits_value c > maxInt then Inl ErrRange else Inr (digits_value c))"
proof -
  from assms have "is_digit (hd c)" by (cases c) auto
  then have "hd c \<noteq> CHR ''-''" "hd c \<noteq> CHR ''+''" by (auto simp: is_digit_def)
  with assms show ?thesis by (simp add: Atoi_def)
qed

lemma counter_Atoi:
  assumes "list_all is_digit c"
  shows "(if c \<noteq> [] then Atoi c else Inr 0) =
         (if counter_value c > maxInt then Inl ErrRange else Inr (counter_value c))"
  using assms by (simp add: Atoi_digits counter_value_def maxInt_def)

lemma getUniqeFilename_absent: "f \<notin> D \<Longrightarrow> getUniqeFilename D f = Some (Inr f)"
  by (subst getUniqeFilename.simps) simp


lemma getUniqeFilename_range:
  assumes "f \<in> D" "FindStringSubmatch f = Some (s, c, e)" "maxInt < counter_value c"
  shows "getUniqeFilename D f = Some (Inl (UnexpectedAtoi c))"
proof -
  have "list_all is_digit c" by (rule FindStringSubmatch_D(3)[OF assms(2)])
  from counter_Atoi[OF this] assms show ?thesis
    by (subst getUniqeFilename.simps) simp
qed

lemma getUniqeFilename_step:
  assumes "f \<in> D" "FindStringSubmatch f = Some (s, c, e)" "counter_value c \<le> maxInt"
  shows "getUniqeFilename D f = getUniqeFilename D (candidate s (counter_value c) e)"
proof -
  have "list_all is_digit c" by (rule FindStringSubmatch_D(3)[OF assms(2)])
  from counter_Atoi[OF this] assms show ?thesis
    by (subst getUniqeFilename.simps) simp
qed

lemma candidate_plain:
  "0 \<le> i \<Longrightarrow> i < maxInt \<Longrightarrow> candidate s i e = s @ CHR ''('' # dec_digits (i + 1) @ CHR '')'' # e"
  by (simp add: candidate_def wrap_int_def Sprint_int_def maxInt_def add.commute)











lemma FindStringSubmatch_no_newline:
  "CHR 0x0A \<notin> set f \<Longrightarrow> \<exists>s c e. FindStringSubmatch f = Some (s, c, e)"
  using find_from_no_newline[of f "[]"] by (auto simp: FindStringSubmatch_def)

lemma FindStringSubmatch_ext_final:
  assumes f: "FindStringSubmatch f = Some (s, c, e)"
  shows "if CHR ''.'' \<in> set f then \<exists>t. e = CHR ''.'' # t \<and> CHR ''.'' \<notin> set t else e = []"
proof -
  note d = FindStringSubmatch_D[OF f]
  show ?thesis
  proof (cases "CHR ''.'' \<in> set f")
    case False
    with d(1,2) show ?thesis by (auto simp: match_ext_iff)
  next
    case True
    have "e \<noteq> []"
    proof
      assume e: "e = []"
      with True d(1) dot_notin_paren[OF d(3)] have "CHR ''.'' \<in> set s" by auto
      then obtain s1 s2 where s: "s = s1 @ CHR ''.'' # s2" "CHR ''.'' \<notin> set s2"
        by (auto dest: split_list_last)
      have k: "length s1 < length s" using s by simp
      have "match_ext (CHR ''.'' # s2 @ paren c)"
        using s(2) dot_notin_paren[OF d(3)] by (simp add: match_ext_iff)
      then have "match_tail (drop (length s1) s @ paren c @ e) = Some ([], CHR ''.'' # s2 @ paren c)"
        using s e by (simp add: match_tail_iff)
      with d(5)[OF k] show False by simp
    qed
    with d(2) True show ?thesis by (auto simp: match_ext_iff)
  qed
qed

lemma FindStringSubmatch_counter_taken:
  assumes f: "FindStringSubmatch f = Some (s, [], e)"
  shows "\<not> (\<exists>s' ds. ds \<noteq> [] \<and> list_all is_digit ds \<and> s = s' @ CHR ''('' # ds @ '')'')"
proof
  assume "\<exists>s' ds. ds \<noteq> [] \<and> list_all is_digit ds \<and> s = s' @ CHR ''('' # ds @ '')''"
  then obtain s' ds where a: "ds \<noteq> []" "list_all is_digit ds" "s = s' @ CHR ''('' # ds @ '')''" by blast
  note d = FindStringSubmatch_D[OF f]
  have k: "length s' < length s" using a by simp
  have "match_tail (drop (length s') s @ paren [] @ e) = Some (ds, e)"
    using a d(2) by (simp add: match_tail_iff paren_def)
  with d(5)[OF k] show False by simp
qed




subsection \<open>Claims C1, C3 and C10\<close>




text \<open>
  Claim C3, as amended. On a collision of a name without a newline, the expression splits
  the name into a stem, the digits of a parenthesised counter (none: counter 0) and an
  extension: the extension is the final dot-delimited segment with its dot (empty when
  the name has no dot), and the counter is taken whenever the stem would otherwise end in
  a parenthesised number. For a counter below the largest \<open>int\<close> the function goes on
  with stem(counter+1)extension; for a counter above the largest \<open>int\<close> it ends the
  process with \<open>log.Fatalf\<close>. A name that is not in the directory is returned. With
  only \<open>foo.txt\<close> present the result is \<open>foo(1).txt\<close>, with \<open>foo.txt\<close> and
  \<open>foo(1).txt\<close> present it is \<open>foo(2).txt\<close>, with \<open>foo\<close> present it is
  \<open>foo(1)\<close>.
\<close>

theorem getUniqeFilename_collision:
  assumes "F \<in> D" and "CHR 0x0A \<notin> set F"
  shows "(\<exists>stem c ext.
            FindStringSubmatch F = Some (stem, c, ext) \<and> F = stem @ paren c @ ext \<and>
            list_all is_digit c \<and>
            (if CHR ''.'' \<in> set F then \<exists>t. ext = CHR ''.'' # t \<and> CHR ''.'' \<notin> set t else ext = []) \<and>
            (c = [] \<longrightarrow> \<not> (\<exists>s' ds. ds \<noteq> [] \<and> list_all is_digit ds \<and> stem = s' @ CHR ''('' # ds @ '')'')) \<and>
            (counter_value c < maxInt \<longrightarrow>
               getUniqeFilename D F =
               getUniqeFilename D (stem @ ''('' @ dec_digits (counter_value c + 1) @ '')'' @ ext)) \<and>
            (maxInt < counter_value c \<longrightarrow> getUniqeFilename D F = Some (Inl (UnexpectedAtoi c)))) \<and>
         (\<forall>G. G \<notin> D \<longrightarrow> getUniqeFilename D G = Some (Inr G)) \<and>
         getUniqeFilename {''foo.txt''} ''foo.txt'' = Some (Inr ''foo(1).txt'') \<and>
         getUniqeFilename {''foo.txt'', ''foo(1).txt''} ''foo.txt'' = Some (Inr ''foo(2).txt'') \<and>
         getUniqeFilename {''foo''} ''foo'' = Some (Inr ''foo(1)'')"
proof (intro conjI allI impI)
  from FindStringSubmatch_no_newline[OF assms(2)] obtain s c e where
    p: "FindStringSubmatch F = Some (s, c, e)" by blast
  note d = FindStringSubmatch_D[OF p]
  have nn: "0 \<le> counter_value c" by (rule counter_value_nonneg[OF d(3)])
  have 1: "c = [] \<longrightarrow> \<not> (\<exists>s' ds. ds \<noteq> [] \<and> list_all is_digit ds \<and> s = s' @ CHR ''('' # ds @ '')'')"
    using FindStringSubmatch_counter_taken[of F s e] p by auto
  have 2: "counter_value c < maxInt \<longrightarrow>
      getUniqeFilename D F = getUniqeFilename D (s @ ''('' @ dec_digits (counter_value c + 1) @ '')'' @ e)"
    using getUniqeFilename_step[OF assms(1) p] candidate_plain[OF nn, of s e] by simp
  have 3: "maxInt < counter_value c \<longrightarrow> getUniqeFilename D F = Some (Inl (UnexpectedAtoi c))"
    using getUniqeFilename_range[OF assms(1) p] by simp
  show "\<exists>stem c ext.
            FindStringSubmatch F = Some (stem, c, ext) \<and> F = stem @ paren c @ ext \<and>
            list_all is_digit c \<and>
            (if CHR ''.'' \<in> set F then \<exists>t. ext = CHR ''.'' # t \<and> CHR ''.'' \<notin> set t else ext = []) \<and>
            (c = [] \<longrightarrow> \<not> (\<exists>s' ds. ds \<noteq> [] \<and> list_all is_digit ds \<and> stem = s' @ CHR ''('' # ds @ '')'')) \<and>
            (counter_value c < maxInt \<longrightarrow>
               getUniqeFilename D F =
               getUniqeFilename D (stem @ ''('' @ dec_digits (counter_value c + 1) @ '')'' @ ext)) \<and>
            (maxInt < counter_value c \<longrightarrow> getUniqeFilename D F = Some (Inl (UnexpectedAtoi c)))"
    using p d(1) d(3) FindStringSubmatch_ext_final[OF p] 1 2 3 by blast
next
  fix G assume "G \<notin> D"
  then show "getUniqeFilename D G = Some (Inr G)" by (rule getUniqeFilename_absent)
next
  show "getUniqeFilename {''foo.txt''} ''foo.txt'' = Some (Inr ''foo(1).txt'')" by code_simp
  show "getUniqeFilename {''foo.txt'', ''foo(1).txt''} ''foo.txt'' = Some (Inr ''foo(2).txt'')" by code_simp
  show "getUniqeFilename {''foo''} ''foo'' = Some (Inr ''foo(1)'')" by code_simp
qed

text \<open>The theorem at the directory that holds \<open>foo(1).txt\<close> only.\<close>

theorem getUniqeFilename_collision_witness:
  "''foo(1).txt'' \<in> {''foo(1).txt''} \<and> CHR 0x0A \<notin> set ''foo(1).txt'' \<and>
   (\<exists>stem c ext.
            FindStringSubmatch ''foo(1).txt'' = Some (stem, c, ext) \<and> ''foo(1).txt'' = stem @ paren c @ ext \<and>
            list_all is_digit c \<and>
            (if CHR ''.'' \<in> set ''foo(1).txt'' then \<exists>t. ext = CHR ''.'' # t \<and> CHR ''.'' \<notin> set t else ext = []) \<and>
            (c = [] \<longrightarrow> \<not> (\<exists>s' ds. ds \<noteq> [] \<and> list_all is_digit ds \<and> stem = s' @ CHR ''('' # ds @ '')'')) \<and>
            (counter_value c < maxInt \<longrightarrow>
               getUniqeFilename {''foo(1).txt''} ''foo(1).txt'' =
               getUniqeFilename {''foo(1).txt''} (stem @ ''('' @ dec_digits (counter_value c + 1) @ '')'' @ ext)) \<and>
            (maxInt < counter_value c \<longrightarrow>
               getUniqeFilename {''foo(1).txt''} ''foo(1).txt'' = Some (Inl (UnexpectedAtoi c))))"
proof -
  have h1: "''foo(1).txt'' \<in> {''foo(1).txt''}" by simp
  have h2: "CHR 0x0A \<notin> set ''foo(1).txt''" by simp
  from getUniqeFilename_collision[OF h1 h2, THEN conjunct1] h1 h2 show ?thesis by (intro conjI)
qed

text \<open>
  Claim C3 as the specification states it fails for a counter that does not fit an
  \<open>int\<close>: the name stem(counter+1)extension is free, and the function does not propose
  it but ends the process.
\<close>

theorem getUniqeFilename_collision_counterexample:
  "''x(99999999999999999999)'' \<in> {''x(99999999999999999999)''} \<and>
   FindStringSubmatch ''x(99999999999999999999)'' = Some (''x'', ''99999999999999999999'', []) \<and>
   getUniqeFilename {''x(99999999999999999999)''} ''x(99999999999999999999)'' =
     Some (Inl (UnexpectedAtoi ''99999999999999999999'')) \<and>
   getUniqeFilename {''x(99999999999999999999)''} ''x(100000000000000000000)'' =
     Some (Inr ''x(100000000000000000000)'')"
proof (intro conjI)
  show "''x(99999999999999999999)'' \<in> {''x(99999999999999999999)''}" by simp
  show "FindStringSubmatch ''x(99999999999999999999)'' = Some (''x'', ''99999999999999999999'', [])"
    by code_simp
  show "getUniqeFilename {''x(99999999999999999999)''} ''x(99999999999999999999)'' =
     Some (Inl (UnexpectedAtoi ''99999999999999999999''))" by code_simp
  show "getUniqeFilename {''x(99999999999999999999)''} ''x(100000000000000000000)'' =
     Some (Inr ''x(100000000000000000000)'')" by code_simp
qed




section \<open>Properties of the attachment walker\<close>

subsection \<open>The directory only grows\<close>

























subsection \<open>Runs of any outcome\<close>















text \<open>
  The same run when \<open>os.Chtimes\<close> fails at the second file: the run ends there with
  \<open>log.Fatalf\<close>, the first file has the delivery time and the second one the time of
  writing.
\<close>

lemma chtimes_failure_run:
  "gmailDownloadAttachments 1 (example_world\<lparr>Chtimes_ok := (\<lambda>name. name \<noteq> ''a(1).pdf'')\<rparr>)
     ''has:attachment from:alice'' empty_state =
     (Exit (CannotChangeTimestamps ''a(1).pdf''),
      \<lparr>outDir = [''a.pdf'' \<mapsto> \<lparr>contents = ''hi'', modtime = 1000000000\<rparr>,
                 ''a(1).pdf'' \<mapsto> \<lparr>contents = ''hi'', modtime = 7\<rparr>],
       totalMsg = 2, totalAtt = 2, written = [''a.pdf'', ''a(1).pdf'']\<rparr>)"
proof -
  have e1: "getUniqeFilename {} ''a.pdf'' = Some (Inr ''a.pdf'')" by (simp add: getUniqeFilename_absent)
  have e2: "getUniqeFilename {''a.pdf''} ''a.pdf'' = Some (Inr ''a(1).pdf'')" by code_simp
  have g: "go_div 1500 1000 = 1" by (simp add: go_div_def)
  show ?thesis
    by (simp add: gmailDownloadAttachments_def example_world_def empty_state_def
          download_message_def download_part_def WriteFile_def Chtimes_def time_Unix_def e1 e2 g
          numeral_2_eq_2)
qed

subsection \<open>Claims C2, C5 and C7\<close>









section \<open>Properties of the token manager\<close>

lemma received_code_Some:
  "received_code rs reqs = Some code \<Longrightarrow>
   \<exists>req \<in> set reqs. req_Path req \<noteq> ''/favicon.ico'' \<and> FormValue req ''state'' = rs \<and>
      FormValue req ''code'' = code \<and> code \<noteq> []"
proof (induction reqs)
  case Nil
  then show ?case by simp
next
  case (Cons req reqs)
  show ?case
  proof (cases "snd (handler rs req)")
    case None
    with Cons show ?thesis by auto
  next
    case (Some c)
    with Cons.prems have "c = code" by simp
    with Some show ?thesis by (auto simp: handler_def split: if_splits)
  qed
qed

text \<open>
  Claim C4. A request to \<open>/favicon.ico\<close> is rejected with status 404. For every other
  request whose \<open>state\<close> parameter does not equal the expected state token, the
  listener responds with status 500. In neither case, and for no request with a wrong
  state, does the handler send a code to the waiting caller: a code that the caller
  receives comes from a request with the expected state, and when no request carries the
  expected state the caller receives nothing and \<open>tokenFromWeb\<close> never gets to the
  token exchange.
\<close>

theorem handler_state_mismatch:
  "(req_Path req = ''/favicon.ico'' \<longrightarrow>
      http_Status (fst (handler rs req)) = 404 \<and> snd (handler rs req) = None) \<and>
   (req_Path req \<noteq> ''/favicon.ico'' \<and> FormValue req ''state'' \<noteq> rs \<longrightarrow>
      http_Status (fst (handler rs req)) = 500 \<and> snd (handler rs req) = None) \<and>
   (FormValue req ''state'' \<noteq> rs \<longrightarrow> snd (handler rs req) = None) \<and>
   (received_code rs reqs = Some code \<longrightarrow>
      (\<exists>r \<in> set reqs. req_Path r \<noteq> ''/favicon.ico'' \<and> FormValue r ''state'' = rs \<and>
         FormValue r ''code'' = code \<and> code \<noteq> [])) \<and>
   ((\<forall>r \<in> set (callback_requests a). FormValue r ''state'' \<noteq> randState a) \<longrightarrow>
      received_code (randState a) (callback_requests a) = None \<and> tokenFromWeb a = None)"
proof (intro conjI impI)
  assume "req_Path req = ''/favicon.ico''"
  then show "http_Status (fst (handler rs req)) = 404" "snd (handler rs req) = None"
    by (simp_all add: handler_def http_Error_def)
next
  assume "req_Path req \<noteq> ''/favicon.ico'' \<and> FormValue req ''state'' \<noteq> rs"
  then show "http_Status (fst (handler rs req)) = 500" "snd (handler rs req) = None"
    by (simp_all add: handler_def http_Error_def)
next
  assume "FormValue req ''state'' \<noteq> rs"
  then show "snd (handler rs req) = None" by (simp add: handler_def)
next
  assume "received_code rs reqs = Some code"
  then show "\<exists>r \<in> set reqs. req_Path r \<noteq> ''/favicon.ico'' \<and> FormValue r ''state'' = rs \<and>
         FormValue r ''code'' = code \<and> code \<noteq> []" by (rule received_code_Some)
next
  assume a: "\<forall>r \<in> set (callback_requests a). FormValue r ''state'' \<noteq> randState a"
  show n: "received_code (randState a) (callback_requests a) = None"
  proof (rule ccontr)
    assume "received_code (randState a) (callback_requests a) \<noteq> None"
    then obtain code where "received_code (randState a) (callback_requests a) = Some code" by auto
    from received_code_Some[OF this] a show False by blast
  qed
  then show "tokenFromWeb a = None" by (simp add: tokenFromWeb_def)
qed

text \<open>The theorem at a request with a forged state and at the request for the icon.\<close>

theorem handler_state_mismatch_witness:
  "req_Path forged_request \<noteq> ''/favicon.ico'' \<and> FormValue forged_request ''state'' \<noteq> ''st1'' \<and>
   http_Status (fst (handler ''st1'' forged_request)) = 500 \<and>
   snd (handler ''st1'' forged_request) = None \<and>
   req_Path favicon_request = ''/favicon.ico'' \<and>
   http_Status (fst (handler ''st1'' favicon_request)) = 404 \<and>
   snd (handler ''st1'' favicon_request) = None"
proof -
  have h: "req_Path forged_request \<noteq> ''/favicon.ico'' \<and> FormValue forged_request ''state'' \<noteq> ''st1''"
    by (simp add: forged_request_def FormValue_def)
  have f: "req_Path favicon_request = ''/favicon.ico''" by (simp add: favicon_request_def)
  from handler_state_mismatch[of forged_request "''st1''"] h
  have 1: "http_Status (fst (handler ''st1'' forged_request)) = 500 \<and> snd (handler ''st1'' forged_request) = None"
    by blast
  from handler_state_mismatch[of favicon_request "''st1''"] f
  have 2: "http_Status (fst (handler ''st1'' favicon_request)) = 404 \<and> snd (handler ''st1'' favicon_request) = None"
    by blast
  from h f 1 2 show ?thesis by blast
qed





text \<open>When the cache file cannot be created, \<open>saveToken\<close> logs the warning and returns.\<close>

lemma saveToken_create_failure:
  "\<not> Create_ok a file \<Longrightarrow>
   saveToken a file token d = d\<lparr>log_lines := log_lines d @ [WarningFailedToCache]\<rparr>"
  by (simp add: saveToken_def)

text \<open>
  Claim C9 at an input where the code departs from it. Token caching is enabled, the
  authorization succeeds, the cache file can be created, and writing the encoded token
  into it fails. \<open>saveToken\<close> does not look at the result of \<open>Encode\<close>: the run
  continues with the token, the cache file is empty, and the only line logged says that
  the token was saved; no warning is logged.
\<close>

theorem saveToken_encode_failure:
  "newOAuthClient example_host failing_disk True (example_config [''a'', ''b''])
     \<lparr>cache_files = Map.empty, log_lines = []\<rparr> =
   Some (Inr \<lparr>AccessToken = ''at'', TokenType = ''Bearer'', RefreshToken = ''rt'', Expiry = 0\<rparr>,
         \<lparr>cache_files = [''/home/u/.cache/gdownload-tok3676492798'' \<mapsto> []],
          log_lines = [SavedToken ''/home/u/.cache/gdownload-tok3676492798'']\<rparr>)"
proof -
  have f: "tokenCacheFile example_host (example_config [''a'', ''b'']) = ''/home/u/.cache/gdownload-tok3676492798''"
    by code_simp
  show ?thesis
    by (simp add: newOAuthClient_def f tokenFromFile_def tokenFromWeb_def saveToken_def failing_disk_def
          handler_def FormValue_def Let_def)
qed

section \<open>Properties of the generator\<close>

subsection \<open>Reading the emitted lines\<close>

lemma hex_val_hex_digit: "n < 16 \<Longrightarrow> hex_val (hex_digit n) = Some n"
proof -
  assume "n < 16"
  then have "n \<in> set [0..<16]" by simp
  moreover have "\<forall>m \<in> set [0..<16]. hex_val (hex_digit m) = Some m" by code_simp
  ultimately show ?thesis by blast
qed

lemma digit_in_16_hex_digit: "n < 16 \<Longrightarrow> digit_in 16 (hex_digit n) = Some n"
  by (simp add: digit_in_def hex_val_hex_digit)

lemma hex_val_digit_char: "0 \<le> d \<Longrightarrow> d < 10 \<Longrightarrow> hex_val (digit_char d) = Some (nat d)"
proof -
  assume "0 \<le> d" "d < 10"
  then have "d = 0 \<or> d = 1 \<or> d = 2 \<or> d = 3 \<or> d = 4 \<or> d = 5 \<or> d = 6 \<or> d = 7 \<or> d = 8 \<or> d = 9"
    by arith
  then show ?thesis
    by (elim disjE) (simp_all add: hex_val_def digit_char_def)
qed

lemma digit_in_10_digit_char: "0 \<le> d \<Longrightarrow> d < 10 \<Longrightarrow> digit_in 10 (digit_char d) = Some (nat d)"
  by (simp add: digit_in_def hex_val_digit_char)

lemma digit_char_zero: "0 < d \<Longrightarrow> d < 10 \<Longrightarrow> digit_char d \<noteq> CHR ''0'' \<and> \<not> is_blank (digit_char d) \<and>
    digit_char d \<noteq> CHR 0x0A \<and> digit_char d \<noteq> CHR ''}''"
proof -
  assume "0 < d" "d < 10"
  then have "d = 1 \<or> d = 2 \<or> d = 3 \<or> d = 4 \<or> d = 5 \<or> d = 6 \<or> d = 7 \<or> d = 8 \<or> d = 9"
    by arith
  then show ?thesis
    by (elim disjE) (simp_all add: is_blank_def digit_char_def)
qed

lemma byte_split:
  "(of_char b :: nat) div 16 < 16" "(of_char b :: nat) mod 16 < 16"
  "(of_char b :: nat) div 16 * 16 + of_char b mod 16 = of_char b"
  "(of_char b :: nat) < 256"
  by (simp_all add: less_mult_imp_div_less)

lemma comma_ends_number:
  "v \<le> 255 \<Longrightarrow> end_number v acc CHR '','' = (Elems, acc @ [char_of v])"
  by (simp add: end_number_def after_value_def word_char_def is_blank_def)

lemma comma_ends_byte: "end_number (of_char b) acc CHR '','' = (Elems, acc @ [b])"
proof -
  have "(of_char b :: nat) < 256" by simp
  then have "(of_char b :: nat) \<le> 255" by arith
  then show ?thesis by (simp add: comma_ends_number)
qed

lemma comma_no_digit: "digit_in base CHR '','' = None"
  by (simp add: digit_in_def hex_val_def)

lemma item_hexx:
  "foldl lex_step (Elems, acc) ((''0x'' @ fmt_x_byte b) @ '','') = (Elems, acc @ [b])"
proof -
  have "foldl lex_step (Elems, acc) ((''0x'' @ fmt_x_byte b) @ '','') =
        end_number (of_char b div 16 * 16 + of_char b mod 16) acc CHR '',''"
    by (simp add: fmt_x_byte_def is_blank_def digit_in_16_hex_digit byte_split comma_no_digit)
  then show ?thesis by (simp add: comma_ends_byte)
qed

lemma item_hex:
  "foldl lex_step (Elems, acc) ((''0x'' @ fmt_x_int (of_char b)) @ '','') = (Elems, acc @ [b])"
proof (cases "(of_char b :: nat) < 16")
  case True
  then have "foldl lex_step (Elems, acc) ((''0x'' @ fmt_x_int (of_char b)) @ '','') =
        end_number (of_char b) acc CHR '',''"
    by (simp add: fmt_x_int_def is_blank_def digit_in_16_hex_digit comma_no_digit)
  then show ?thesis by (simp add: comma_ends_byte)
next
  case False
  then have "foldl lex_step (Elems, acc) ((''0x'' @ fmt_x_int (of_char b)) @ '','') =
        end_number (of_char b div 16 * 16 + of_char b mod 16) acc CHR '',''"
    by (simp add: fmt_x_int_def is_blank_def digit_in_16_hex_digit byte_split comma_no_digit)
  then show ?thesis by (simp add: comma_ends_byte)
qed

lemma dec_digits_number:
  "1 \<le> n \<Longrightarrow> foldl lex_step (Elems, acc) (dec_digits n) = (Num 10 (nat n), acc)"
proof (induction n rule: dec_digits.induct)
  case (1 n)
  show ?case
  proof (cases "n < 10")
    case True
    with 1(2) digit_char_zero[of n] digit_in_10_digit_char[of n] show ?thesis
      by (simp add: dec_digits.simps[of n])
  next
    case False
    then have "1 \<le> n div 10" by simp
    with 1(1) False have "foldl lex_step (Elems, acc) (dec_digits (n div 10)) = (Num 10 (nat (n div 10)), acc)"
      by simp
    moreover have "digit_in 10 (digit_char (n mod 10)) = Some (nat (n mod 10))"
      by (rule digit_in_10_digit_char) simp_all
    moreover have "nat (n div 10) * 10 + nat (n mod 10) = nat n"
    proof -
      have "nat n = nat (n div 10 * 10 + n mod 10)" by simp
      also have "\<dots> = nat (n div 10 * 10) + nat (n mod 10)"
        using False by (intro nat_add_distrib) simp_all
      also have "nat (n div 10 * 10) = nat (n div 10) * 10"
        using False by (simp add: nat_mult_distrib)
      finally show ?thesis by simp
    qed
    ultimately show ?thesis using False by (simp add: dec_digits.simps[of n])
  qed
qed

lemma item_dec:
  "foldl lex_step (Elems, acc) (dec_digits (of_char b) @ '','') = (Elems, acc @ [b])"
proof (cases "(of_char b :: int) = 0")
  case True
  then have z: "(of_char b :: nat) = 0" by (metis of_nat_eq_0_iff of_nat_of_char)
  have "foldl lex_step (Elems, acc) (dec_digits (of_char b) @ '','') = end_number 0 acc CHR '',''"
    using True by (simp add: dec_digits.simps[of 0] digit_char_def is_blank_def comma_no_digit)
  also have "\<dots> = (Elems, acc @ [b])" using comma_ends_byte[of b acc] z by simp
  finally show ?thesis .
next
  case False
  have nn: "0 \<le> (of_char b :: int)" by (metis of_nat_0_le_iff of_nat_of_char)
  with False have "1 \<le> (of_char b :: int)" by linarith
  from dec_digits_number[OF this, of acc]
  have "foldl lex_step (Elems, acc) (dec_digits (of_char b) @ '','') =
        end_number (nat (of_char b)) acc CHR '',''"
    by (simp add: comma_no_digit)
  moreover have "nat (of_char b :: int) = (of_char b :: nat)" by (metis nat_int of_nat_of_char)
  ultimately show ?thesis by (simp add: comma_ends_byte)
qed

lemma skip_blanks_Elems:
  "list_all is_blank ws \<Longrightarrow> foldl lex_step (Elems, acc) ws = (Elems, acc)"
  by (induction ws) auto

lemma skip_blanks_Strs:
  "list_all is_blank ws \<Longrightarrow> foldl lex_step (Strs, acc) ws = (Strs, acc)"
  by (induction ws) auto

lemma skip_blanks_AfterComma:
  "list_all is_blank ws \<Longrightarrow> foldl lex_step (AfterComma, acc) ws = (AfterComma, acc)"
  by (induction ws) auto

lemma run_seq:
  "foldl lex_step s xs = s' \<Longrightarrow> foldl lex_step s' ys = r \<Longrightarrow> foldl lex_step s (xs @ ys) = r"
  by simp

lemma join_items:
  assumes item: "\<And>b acc. foldl lex_step (Elems, acc) (item b @ '','') = (Elems, acc @ [b])"
  shows "xs \<noteq> [] \<Longrightarrow>
         foldl lex_step (Elems, acc) (strings_Join (map item xs) '', '' @ '','') = (Elems, acc @ xs)"
proof (induction xs arbitrary: acc)
  case Nil
  then show ?case by simp
next
  case (Cons x xs)
  show ?case
  proof (cases xs)
    case Nil
    then show ?thesis using item[of acc x] by simp
  next
    case (Cons y ys)
    have t: "strings_Join (map item (x # xs)) '', '' @ '','' =
          (item x @ '','') @ ('' '' @ (strings_Join (map item xs) '', '' @ '',''))"
      using Cons by simp
    have 1: "foldl lex_step (Elems, acc) (item x @ '','') = (Elems, acc @ [x])" by (rule item)
    have 2: "foldl lex_step (Elems, acc @ [x]) '' '' = (Elems, acc @ [x])" by (simp add: is_blank_def)
    have 3: "foldl lex_step (Elems, acc @ [x]) (strings_Join (map item xs) '', '' @ '','') =
             (Elems, (acc @ [x]) @ xs)"
      using Cons.IH[of "acc @ [x]"] Cons by simp
    have "foldl lex_step (Elems, acc)
            ((item x @ '','') @ ('' '' @ (strings_Join (map item xs) '', '' @ '',''))) =
          (Elems, (acc @ [x]) @ xs)"
      by (rule run_seq[OF 1]) (rule run_seq[OF 2 3])
    then show ?thesis unfolding t by simp
  qed
qed

lemma list_item_funs:
  "list_item hexx = (\<lambda>b. ''0x'' @ fmt_x_byte b)"
  "list_item hex = (\<lambda>b. ''0x'' @ fmt_x_int (of_char b))"
  "list_item dec = (\<lambda>b. dec_digits (of_char b))"
  by (simp_all add: fun_eq_iff list_item_def)

lemma getLine_list:
  "f = hexx \<or> f = hex \<or> f = dec \<Longrightarrow>
   getLine quote f chunk cap = [CHR 0x09] @ (strings_Join (map (list_item f) chunk) '', '' @ '','')"
  by (auto simp: getLine_def list_item_funs)

lemma list_item_ok:
  "f = hexx \<or> f = hex \<or> f = dec \<Longrightarrow>
   foldl lex_step (Elems, acc) (list_item f b @ '','') = (Elems, acc @ [b])"
  using item_hexx[of acc b] item_hex[of acc b] item_dec[of acc b]
  by (auto simp: list_item_def)

lemma line_list:
  assumes f: "f = hexx \<or> f = hex \<or> f = dec" and ind: "list_all is_blank indent" and ne: "chunk \<noteq> []"
  shows "foldl lex_step (Elems, acc) (indent @ '' '' @ getLine quote f chunk cap @ [CHR 0x0A]) =
         (Elems, acc @ chunk)"
proof -
  have t: "indent @ '' '' @ getLine quote f chunk cap @ [CHR 0x0A] =
        (indent @ [CHR '' '', CHR 0x09]) @ (strings_Join (map (list_item f) chunk) '', '' @ '','') @ [CHR 0x0A]"
    by (simp add: getLine_list[OF f])
  have 1: "foldl lex_step (Elems, acc) (indent @ [CHR '' '', CHR 0x09]) = (Elems, acc)"
    by (rule skip_blanks_Elems) (use ind in \<open>simp add: is_blank_def\<close>)
  have 2: "foldl lex_step (Elems, acc) (strings_Join (map (list_item f) chunk) '', '' @ '','') =
             (Elems, acc @ chunk)"
    by (rule join_items[OF list_item_ok[OF f] ne])
  have 3: "foldl lex_step (Elems, acc @ chunk) [CHR 0x0A] = (Elems, acc @ chunk)" by simp
  have "foldl lex_step (Elems, acc)
          ((indent @ [CHR '' '', CHR 0x09]) @ (strings_Join (map (list_item f) chunk) '', '' @ '','') @ [CHR 0x0A]) =
        (Elems, acc @ chunk)"
    by (rule run_seq[OF 1]) (rule run_seq[OF 2 3])
  then show ?thesis unfolding t .
qed

lemma chunk_rest:
  "i < length buffer \<Longrightarrow>
   take (min (i + Suc k) (length buffer) - i) (drop i buffer) @ drop (i + Suc k) buffer = drop i buffer"
proof -
  assume i: "i < length buffer"
  show ?thesis
  proof (cases "i + Suc k \<le> length buffer")
    case True
    then have "min (i + Suc k) (length buffer) - i = Suc k" by simp
    moreover have "drop (i + Suc k) buffer = drop (Suc k) (drop i buffer)" by (simp add: add.commute)
    ultimately show ?thesis by (simp only: append_take_drop_id)
  next
    case False
    then have "min (i + Suc k) (length buffer) - i = length buffer - i" by simp
    moreover have "drop (i + Suc k) buffer = []" using False by simp
    ultimately show ?thesis by simp
  qed
qed

lemma chunk_nonempty:
  "i < length buffer \<Longrightarrow> take (min (i + Suc k) (length buffer) - i) (drop i buffer) \<noteq> []"
  by auto

lemma emit_lines_list:
  "f = hexx \<or> f = hex \<or> f = dec \<Longrightarrow> list_all is_blank indent \<Longrightarrow>
   foldl lex_step (Elems, acc) (emit_lines quote f indent k buffer bufcap i) =
     (Elems, acc @ drop i buffer)"
proof (induction quote f indent k buffer bufcap i arbitrary: acc rule: emit_lines.induct)
  case (1 quote f indent k buffer bufcap i)
  show ?case
  proof (cases "i < length buffer")
    case False
    then show ?thesis by (simp add: emit_lines.simps[of quote f indent k buffer bufcap i])
  next
    case True
    let ?chunk = "take (min (i + Suc k) (length buffer) - i) (drop i buffer)"
    have t: "emit_lines quote f indent k buffer bufcap i =
          (indent @ '' '' @ getLine quote f ?chunk (bufcap - i) @ [CHR 0x0A]) @
          emit_lines quote f indent k buffer bufcap (i + Suc k)"
      using True by (simp add: emit_lines.simps[of quote f indent k buffer bufcap i])
    have 1: "foldl lex_step (Elems, acc) (indent @ '' '' @ getLine quote f ?chunk (bufcap - i) @ [CHR 0x0A]) =
             (Elems, acc @ ?chunk)"
      by (rule line_list[OF "1.prems" chunk_nonempty[OF True]])
    have 2: "foldl lex_step (Elems, acc @ ?chunk) (emit_lines quote f indent k buffer bufcap (i + Suc k)) =
             (Elems, (acc @ ?chunk) @ drop (i + Suc k) buffer)"
      by (rule "1.IH"[OF True "1.prems"])
    have "foldl lex_step (Elems, acc)
            ((indent @ '' '' @ getLine quote f ?chunk (bufcap - i) @ [CHR 0x0A]) @
             emit_lines quote f indent k buffer bufcap (i + Suc k)) =
          (Elems, (acc @ ?chunk) @ drop (i + Suc k) buffer)"
      by (rule run_seq[OF 1 2])
    then show ?thesis unfolding t by (simp only: append_assoc chunk_rest[OF True])
  qed
qed

lemma item_shexx:
  "foldl lex_step (InStr, acc) ([CHR 0x5C, CHR ''x''] @ fmt_x_byte b) = (InStr, acc @ [b])"
  using byte_split(3)[of b]
  by (simp add: fmt_x_byte_def hex_val_hex_digit byte_split mult.commute)

lemma join_shexx:
  "foldl lex_step (InStr, acc) (strings_Join (map (\<lambda>b. [CHR 0x5C, CHR ''x''] @ fmt_x_byte b) xs) []) =
     (InStr, acc @ xs)"
proof (induction xs arbitrary: acc)
  case Nil
  then show ?case by simp
next
  case (Cons x xs)
  let ?item = "\<lambda>b. [CHR 0x5C, CHR ''x''] @ fmt_x_byte b"
  have t: "strings_Join (map ?item (x # xs)) [] = ?item x @ strings_Join (map ?item xs) []"
    by (cases xs) simp_all
  have "foldl lex_step (InStr, acc) (?item x @ strings_Join (map ?item xs) []) = (InStr, (acc @ [x]) @ xs)"
    by (rule run_seq[OF item_shexx Cons.IH])
  then show ?case unfolding t by simp
qed

lemma line_shexx:
  assumes ind: "list_all is_blank indent"
  shows "foldl lex_step (Strs, acc) (indent @ '' '' @ getLine quote shexx chunk cap @ [CHR 0x0A]) =
         (if length chunk = cap then AfterComma else Strs, acc @ chunk)"
proof -
  let ?item = "\<lambda>b. [CHR 0x5C, CHR ''x''] @ fmt_x_byte b"
  let ?delim = "if length chunk = cap then '','' else ''+''"
  have t: "indent @ '' '' @ getLine quote shexx chunk cap @ [CHR 0x0A] =
        (indent @ [CHR '' '', CHR 0x09]) @ [CHR 0x22] @ strings_Join (map ?item chunk) [] @
        ([CHR 0x22] @ ?delim @ [CHR 0x0A])"
    by (simp add: getLine_def)
  have 1: "foldl lex_step (Strs, acc) (indent @ [CHR '' '', CHR 0x09]) = (Strs, acc)"
    by (rule skip_blanks_Strs) (use ind in \<open>simp add: is_blank_def\<close>)
  have 2: "foldl lex_step (Strs, acc) [CHR 0x22] = (InStr, acc)" by (simp add: is_blank_def)
  have 3: "foldl lex_step (InStr, acc) (strings_Join (map ?item chunk) []) = (InStr, acc @ chunk)"
    by (rule join_shexx)
  have 4: "foldl lex_step (InStr, acc @ chunk) ([CHR 0x22] @ ?delim @ [CHR 0x0A]) =
           (if length chunk = cap then AfterComma else Strs, acc @ chunk)"
    by (simp add: is_blank_def)
  have "foldl lex_step (Strs, acc)
          ((indent @ [CHR '' '', CHR 0x09]) @ [CHR 0x22] @ strings_Join (map ?item chunk) [] @
           ([CHR 0x22] @ ?delim @ [CHR 0x0A])) =
        (if length chunk = cap then AfterComma else Strs, acc @ chunk)"
    by (rule run_seq[OF 1]) (rule run_seq[OF 2], rule run_seq[OF 3 4])
  then show ?thesis unfolding t .
qed

lemma chunk_length:
  "i < length buffer \<Longrightarrow>
   length (take (min (i + Suc k) (length buffer) - i) (drop i buffer)) = min (i + Suc k) (length buffer) - i"
  by auto

lemma emit_lines_shexx_exact:
  "list_all is_blank indent \<Longrightarrow> i < length buffer \<Longrightarrow>
   foldl lex_step (Strs, acc) (emit_lines quote shexx indent k buffer (length buffer) i) =
     (AfterComma, acc @ drop i buffer)"
proof (induction quote shexx indent k buffer "length buffer" i arbitrary: acc rule: emit_lines.induct)
  case (1 quote indent k buffer i)
  let ?chunk = "take (min (i + Suc k) (length buffer) - i) (drop i buffer)"
  have t: "emit_lines quote shexx indent k buffer (length buffer) i =
        (indent @ '' '' @ getLine quote shexx ?chunk (length buffer - i) @ [CHR 0x0A]) @
        emit_lines quote shexx indent k buffer (length buffer) (i + Suc k)"
    using "1.prems"(2) by (simp add: emit_lines.simps[of quote shexx indent k buffer "length buffer" i])
  note l = line_shexx[OF "1.prems"(1), of acc quote ?chunk "length buffer - i"]
  show ?case
  proof (cases "i + Suc k < length buffer")
    case True
    then have "length ?chunk \<noteq> length buffer - i" using "1.prems"(2) by (simp add: chunk_length)
    with l have a: "foldl lex_step (Strs, acc)
        (indent @ '' '' @ getLine quote shexx ?chunk (length buffer - i) @ [CHR 0x0A]) = (Strs, acc @ ?chunk)"
      by simp
    have b: "foldl lex_step (Strs, acc @ ?chunk) (emit_lines quote shexx indent k buffer (length buffer) (i + Suc k)) =
        (AfterComma, (acc @ ?chunk) @ drop (i + Suc k) buffer)"
      by (rule "1.hyps"[OF "1.prems"(2) "1.prems"(1) True])
    have "foldl lex_step (Strs, acc)
            ((indent @ '' '' @ getLine quote shexx ?chunk (length buffer - i) @ [CHR 0x0A]) @
             emit_lines quote shexx indent k buffer (length buffer) (i + Suc k)) =
          (AfterComma, (acc @ ?chunk) @ drop (i + Suc k) buffer)"
      by (rule run_seq[OF a b])
    then show ?thesis unfolding t by (simp only: append_assoc chunk_rest[OF "1.prems"(2)])
  next
    case False
    then have "length ?chunk = length buffer - i" using "1.prems"(2) by (simp add: chunk_length)
    with l have a: "foldl lex_step (Strs, acc)
        (indent @ '' '' @ getLine quote shexx ?chunk (length buffer - i) @ [CHR 0x0A]) = (AfterComma, acc @ ?chunk)"
      by simp
    have e: "emit_lines quote shexx indent k buffer (length buffer) (i + Suc k) = []"
      using False by (subst emit_lines.simps) simp
    have c: "?chunk = drop i buffer" using False by simp
    show ?thesis unfolding t e using a c by simp
  qed
qed

lemma emit_lines_shexx_spare:
  "list_all is_blank indent \<Longrightarrow> length buffer < bufcap \<Longrightarrow>
   foldl lex_step (Strs, acc) (emit_lines quote shexx indent k buffer bufcap i) =
     (Strs, acc @ drop i buffer)"
proof (induction quote shexx indent k buffer bufcap i arbitrary: acc rule: emit_lines.induct)
  case (1 quote indent k buffer bufcap i)
  show ?case
  proof (cases "i < length buffer")
    case False
    then show ?thesis by (simp add: emit_lines.simps[of quote shexx indent k buffer bufcap i])
  next
    case True
    let ?chunk = "take (min (i + Suc k) (length buffer) - i) (drop i buffer)"
    have t: "emit_lines quote shexx indent k buffer bufcap i =
          (indent @ '' '' @ getLine quote shexx ?chunk (bufcap - i) @ [CHR 0x0A]) @
          emit_lines quote shexx indent k buffer bufcap (i + Suc k)"
      using True by (simp add: emit_lines.simps[of quote shexx indent k buffer bufcap i])
    have "length ?chunk \<noteq> bufcap - i" using True "1.prems"(2) by (simp add: chunk_length)
    with line_shexx[OF "1.prems"(1), of acc quote ?chunk "bufcap - i"]
    have a: "foldl lex_step (Strs, acc)
        (indent @ '' '' @ getLine quote shexx ?chunk (bufcap - i) @ [CHR 0x0A]) = (Strs, acc @ ?chunk)"
      by simp
    have b: "foldl lex_step (Strs, acc @ ?chunk) (emit_lines quote shexx indent k buffer bufcap (i + Suc k)) =
        (Strs, (acc @ ?chunk) @ drop (i + Suc k) buffer)"
      by (rule "1.hyps"[OF True "1.prems"])
    have "foldl lex_step (Strs, acc)
            ((indent @ '' '' @ getLine quote shexx ?chunk (bufcap - i) @ [CHR 0x0A]) @
             emit_lines quote shexx indent k buffer bufcap (i + Suc k)) =
          (Strs, (acc @ ?chunk) @ drop (i + Suc k) buffer)"
      by (rule run_seq[OF a b])
    then show ?thesis unfolding t by (simp only: append_assoc chunk_rest[OF True])
  qed
qed

lemma paren_literal:
  assumes f: "f = shexx \<or> f = shex"
  shows "go_bytes_literal (emitted_literal quote f indent k buffer bufcap) =
         (case foldl lex_step (Strs, []) (emit_lines quote f indent k buffer bufcap 0 @ indent @ '')'') of
            (Done, bytes) \<Rightarrow> Some bytes | _ \<Rightarrow> None)"
proof -
  have p: "getParents f = ''()''" using f by (auto simp: getParents_def)
  show ?thesis by (simp add: emitted_literal_def p go_bytes_literal_def is_blank_def)
qed

lemma list_formats_read:
  assumes f: "f = hexx \<or> f = hex \<or> f = dec" and ind: "list_all is_blank indent"
  shows "go_bytes_literal (emitted_literal quote f indent k buffer bufcap) = Some buffer"
proof -
  have p: "getParents f = ''{}''" using f by (auto simp: getParents_def)
  have t: "emitted_literal quote f indent k buffer bufcap =
        ''[]byte'' @ ([CHR ''{'', CHR 0x0A] @ emit_lines quote f indent k buffer bufcap 0 @ indent @ ''}'')"
    by (simp add: emitted_literal_def p)
  have 0: "foldl lex_step (Open, []) [CHR ''{'', CHR 0x0A] = (Elems, [])" by (simp add: is_blank_def)
  have 1: "foldl lex_step (Elems, []) (emit_lines quote f indent k buffer bufcap 0) = (Elems, [] @ drop 0 buffer)"
    by (rule emit_lines_list[OF f ind])
  have 2: "foldl lex_step (Elems, buffer) indent = (Elems, buffer)"
    by (rule skip_blanks_Elems[OF ind])
  have 3: "foldl lex_step (Elems, buffer) ''}'' = (Done, buffer)" by (simp add: is_blank_def)
  have e: "foldl lex_step (Elems, []) (emit_lines quote f indent k buffer bufcap 0) = (Elems, buffer)"
    using 1 by simp
  have "foldl lex_step (Open, [])
          ([CHR ''{'', CHR 0x0A] @ emit_lines quote f indent k buffer bufcap 0 @ indent @ ''}'') =
        (Done, buffer)"
    by (rule run_seq[OF 0]) (rule run_seq[OF e], rule run_seq[OF 2 3])
  then show ?thesis unfolding t go_bytes_literal_def by simp
qed

subsection \<open>Claim C8, and what holds of the five formats\<close>

text \<open>
  For the formats \<open>hexx\<close>, \<open>hex\<close> and \<open>dec\<close>, for every input, every positive
  number of bytes per line and every capacity of the buffer, reading the emitted literal
  as Go does gives back the bytes of the input.
\<close>

theorem list_formats_round_trip:
  assumes "f = hexx \<or> f = hex \<or> f = dec" and "list_all is_blank indent"
  shows "go_bytes_literal (emitted_literal quote f indent k buffer bufcap) = Some buffer"
  using assms by (rule list_formats_read)

text \<open>The theorem at three bytes, two on a line, in the form with \<open>init\<close>.\<close>

theorem list_formats_round_trip_witness:
  "(hex = hexx \<or> hex = hex \<or> hex = dec) \<and> list_all is_blank [CHR 0x09] \<and>
   emitted_literal (\<lambda>s. s) hex [CHR 0x09] 1 [CHR 0x00, CHR 0x6B, CHR 0xFF] 515 =
     [CHR ''['', CHR '']'', CHR ''b'', CHR ''y'', CHR ''t'', CHR ''e'', CHR ''{'', CHR 0x0A,
      CHR 0x09, CHR '' '', CHR 0x09, CHR ''0'', CHR ''x'', CHR ''0'', CHR '','', CHR '' '',
      CHR ''0'', CHR ''x'', CHR ''6'', CHR ''b'', CHR '','', CHR 0x0A,
      CHR 0x09, CHR '' '', CHR 0x09, CHR ''0'', CHR ''x'', CHR ''f'', CHR ''f'', CHR '','', CHR 0x0A,
      CHR 0x09, CHR ''}''] \<and>
   go_bytes_literal (emitted_literal (\<lambda>s. s) hex [CHR 0x09] 1 [CHR 0x00, CHR 0x6B, CHR 0xFF] 515) =
     Some [CHR 0x00, CHR 0x6B, CHR 0xFF]"
proof -
  have f: "hex = hexx \<or> hex = hex \<or> hex = dec" by simp
  have i: "list_all is_blank [CHR 0x09]" by (simp add: is_blank_def)
  have t: "emitted_literal (\<lambda>s. s) hex [CHR 0x09] 1 [CHR 0x00, CHR 0x6B, CHR 0xFF] 515 =
     [CHR ''['', CHR '']'', CHR ''b'', CHR ''y'', CHR ''t'', CHR ''e'', CHR ''{'', CHR 0x0A,
      CHR 0x09, CHR '' '', CHR 0x09, CHR ''0'', CHR ''x'', CHR ''0'', CHR '','', CHR '' '',
      CHR ''0'', CHR ''x'', CHR ''6'', CHR ''b'', CHR '','', CHR 0x0A,
      CHR 0x09, CHR '' '', CHR 0x09, CHR ''0'', CHR ''x'', CHR ''f'', CHR ''f'', CHR '','', CHR 0x0A,
      CHR 0x09, CHR ''}'']"
    by code_simp
  from list_formats_round_trip[OF f i] f i t show ?thesis by (intro conjI)
qed

text \<open>
  For the format \<open>shexx\<close> the last line ends in a comma only when the buffer has no
  spare capacity; then, for a non-empty input, the literal gives back the bytes.
\<close>

theorem shexx_round_trip:
  assumes ind: "list_all is_blank indent" and ne: "buffer \<noteq> []" and cap: "bufcap = length buffer"
  shows "go_bytes_literal (emitted_literal quote shexx indent k buffer bufcap) = Some buffer"
proof -
  have 1: "foldl lex_step (Strs, []) (emit_lines quote shexx indent k buffer bufcap 0) = (AfterComma, [] @ drop 0 buffer)"
    unfolding cap by (rule emit_lines_shexx_exact[OF ind]) (use ne in simp)
  then have e: "foldl lex_step (Strs, []) (emit_lines quote shexx indent k buffer bufcap 0) = (AfterComma, buffer)"
    by simp
  have 2: "foldl lex_step (AfterComma, buffer) indent = (AfterComma, buffer)"
    by (rule skip_blanks_AfterComma[OF ind])
  have 3: "foldl lex_step (AfterComma, buffer) '')'' = (Done, buffer)" by (simp add: is_blank_def)
  have "foldl lex_step (Strs, []) (emit_lines quote shexx indent k buffer bufcap 0 @ indent @ '')'') = (Done, buffer)"
    by (rule run_seq[OF e]) (rule run_seq[OF 2 3])
  then show ?thesis by (simp add: paren_literal)
qed

text \<open>The theorem at three bytes in a buffer of capacity three.\<close>

theorem shexx_round_trip_witness:
  "list_all is_blank [] \<and> [CHR 0x00, CHR 0x6B, CHR 0xFF] \<noteq> [] \<and>
   3 = length [CHR 0x00, CHR 0x6B, CHR 0xFF] \<and>
   go_bytes_literal (emitted_literal (\<lambda>s. s) shexx [] 1 [CHR 0x00, CHR 0x6B, CHR 0xFF] 3) =
     Some [CHR 0x00, CHR 0x6B, CHR 0xFF]"
proof -
  have i: "list_all is_blank []" by simp
  have n: "[CHR 0x00, CHR 0x6B, CHR 0xFF] \<noteq> []" by simp
  have c: "3 = length [CHR 0x00, CHR 0x6B, CHR 0xFF]" by simp
  from shexx_round_trip[OF i n c] i n c show ?thesis by (intro conjI)
qed

text \<open>
  With spare capacity in the buffer every line of the format \<open>shexx\<close> ends in
  \<open>+\<close>, the last one too, and the literal is not an expression.
\<close>

theorem shexx_spare_capacity:
  assumes ind: "list_all is_blank indent" and cap: "length buffer < bufcap"
  shows "go_bytes_literal (emitted_literal quote shexx indent k buffer bufcap) = None"
proof -
  have 1: "foldl lex_step (Strs, []) (emit_lines quote shexx indent k buffer bufcap 0) = (Strs, [] @ drop 0 buffer)"
    by (rule emit_lines_shexx_spare[OF ind cap])
  then have e: "foldl lex_step (Strs, []) (emit_lines quote shexx indent k buffer bufcap 0) = (Strs, buffer)"
    by simp
  have 2: "foldl lex_step (Strs, buffer) indent = (Strs, buffer)"
    by (rule skip_blanks_Strs[OF ind])
  have 3: "foldl lex_step (Strs, buffer) '')'' = (Bad, buffer)" by (simp add: is_blank_def)
  have "foldl lex_step (Strs, []) (emit_lines quote shexx indent k buffer bufcap 0 @ indent @ '')'') = (Bad, buffer)"
    by (rule run_seq[OF e]) (rule run_seq[OF 2 3])
  then show ?thesis by (simp add: paren_literal)
qed

text \<open>The theorem at three bytes in a buffer of capacity 515.\<close>

theorem shexx_spare_capacity_witness:
  "list_all is_blank [] \<and> length [CHR 0x00, CHR 0x6B, CHR 0xFF] < 515 \<and>
   emitted_literal (\<lambda>s. s) shexx [] 1 [CHR 0x00, CHR 0x6B, CHR 0xFF] 515 =
     [CHR ''['', CHR '']'', CHR ''b'', CHR ''y'', CHR ''t'', CHR ''e'', CHR ''('', CHR 0x0A,
      CHR '' '', CHR 0x09, CHR 0x22, CHR 0x5C, CHR ''x'', CHR ''0'', CHR ''0'',
        CHR 0x5C, CHR ''x'', CHR ''6'', CHR ''b'', CHR 0x22, CHR ''+'', CHR 0x0A,
      CHR '' '', CHR 0x09, CHR 0x22, CHR 0x5C, CHR ''x'', CHR ''f'', CHR ''f'', CHR 0x22, CHR ''+'', CHR 0x0A,
      CHR '')''] \<and>
   go_bytes_literal (emitted_literal (\<lambda>s. s) shexx [] 1 [CHR 0x00, CHR 0x6B, CHR 0xFF] 515) = None"
proof -
  have i: "list_all is_blank []" by simp
  have c: "length [CHR 0x00, CHR 0x6B, CHR 0xFF] < 515" by simp
  have t: "emitted_literal (\<lambda>s. s) shexx [] 1 [CHR 0x00, CHR 0x6B, CHR 0xFF] 515 =
     [CHR ''['', CHR '']'', CHR ''b'', CHR ''y'', CHR ''t'', CHR ''e'', CHR ''('', CHR 0x0A,
      CHR '' '', CHR 0x09, CHR 0x22, CHR 0x5C, CHR ''x'', CHR ''0'', CHR ''0'',
        CHR 0x5C, CHR ''x'', CHR ''6'', CHR ''b'', CHR 0x22, CHR ''+'', CHR 0x0A,
      CHR '' '', CHR 0x09, CHR 0x22, CHR 0x5C, CHR ''x'', CHR ''f'', CHR ''f'', CHR 0x22, CHR ''+'', CHR 0x0A,
      CHR '')'']"
    by code_simp
  from shexx_spare_capacity[OF i c] i c t show ?thesis by (intro conjI)
qed

lemma empty_string_formats:
  assumes f: "f = shexx \<or> f = shex" and ind: "list_all is_blank indent"
  shows "go_bytes_literal (emitted_literal quote f indent k [] bufcap) = None"
proof -
  have e: "emit_lines quote f indent k [] bufcap 0 = []"
    by (simp add: emit_lines.simps[of quote f indent k "[]" bufcap 0])
  have 2: "foldl lex_step (Strs, []) indent = (Strs, [])"
    by (rule skip_blanks_Strs[OF ind])
  have 3: "foldl lex_step (Strs, []) '')'' = (Bad, [])" by (simp add: is_blank_def)
  have "foldl lex_step (Strs, []) (indent @ '')'') = (Bad, [])"
    by (rule run_seq[OF 2 3])
  then show ?thesis by (simp add: paren_literal[OF f] e)
qed

text \<open>
  Claim C8 at an input where the code departs from it: the empty file. With the default
  options and the format \<open>shexx\<close> the generator writes a conversion without an
  operand, \<open>[]byte()\<close> over two lines, and so it does with \<open>shex\<close>; Go accepts
  neither, so there is nothing to decode. The format \<open>hexx\<close> gives the empty literal
  back as the empty sequence.
\<close>

theorem gobin_main_empty_input:
  "gobin_main quote \<lparr>packageName = ''main'', varName = ''_'', format = shexx, step = 16, initOnly = False\<rparr>
     [] bufcap =
     Some (Inr ''// Code generated by gobin.go DO NOT EDIT.\<newline>package main\<newline>\<newline>var _ = []byte(\<newline>)\<newline>'') \<and>
   emitted_literal quote shexx [] 15 [] bufcap = ''[]byte(\<newline>)'' \<and>
   go_bytes_literal (emitted_literal quote shexx [] 15 [] bufcap) = None \<and>
   emitted_literal quote shex [] 15 [] bufcap = ''[]byte(\<newline>)'' \<and>
   go_bytes_literal (emitted_literal quote shex [] 15 [] bufcap) = None \<and>
   go_bytes_literal (emitted_literal quote hexx [] 15 [] bufcap) = Some []"
proof (intro conjI)
  have e: "emit_lines quote f [] 15 [] bufcap 0 = []" for f
    by (simp add: emit_lines.simps[of quote f "[]" 15 "[]" bufcap 0])
  show "gobin_main quote \<lparr>packageName = ''main'', varName = ''_'', format = shexx, step = 16, initOnly = False\<rparr>
     [] bufcap =
     Some (Inr ''// Code generated by gobin.go DO NOT EDIT.\<newline>package main\<newline>\<newline>var _ = []byte(\<newline>)\<newline>'')"
    by (simp add: gobin_main_def emitted_literal_def getParents_def e)
  show "emitted_literal quote shexx [] 15 [] bufcap = ''[]byte(\<newline>)''"
    by (simp add: emitted_literal_def getParents_def e)
  show "emitted_literal quote shex [] 15 [] bufcap = ''[]byte(\<newline>)''"
    by (simp add: emitted_literal_def getParents_def e)
  show "go_bytes_literal (emitted_literal quote shexx [] 15 [] bufcap) = None"
    by (rule empty_string_formats) simp_all
  show "go_bytes_literal (emitted_literal quote shex [] 15 [] bufcap) = None"
    by (rule empty_string_formats) simp_all
  show "go_bytes_literal (emitted_literal quote hexx [] 15 [] bufcap) = Some []"
    by (rule list_formats_read) simp_all
qed

end
